theory Spec2Isabelle
  imports Main "HOL-Library.AList"
begin

section \<open>Buffers\<close>

text \<open>
  The program works on Python \<open>str\<close> values: sequences of Unicode code points, addressed
  by code-point offset. A buffer is therefore a list of code points (natural numbers), and
  every offset is a \<open>nat\<close>. \<open>ustr\<close> turns an ASCII literal into a buffer. The backslash and
  the double quote cannot stand in a literal, so they have names of their own.
\<close>

type_synonym buffer = "nat list"

definition ustr :: "string \<Rightarrow> buffer" where
  "ustr s = map of_char s"

abbreviation (input) LBRACE :: nat where "LBRACE \<equiv> 123"
abbreviation (input) RBRACE :: nat where "RBRACE \<equiv> 125"
abbreviation (input) BACKSLASH :: nat where "BACKSLASH \<equiv> 92"
abbreviation (input) DQUOTE :: nat where "DQUOTE \<equiv> 34"
abbreviation (input) NEWLINE :: nat where "NEWLINE \<equiv> 10"

definition quoted :: "string \<Rightarrow> buffer" where
  "quoted s = DQUOTE # ustr s @ [DQUOTE]"

text \<open>
  \<open>text[a:b]\<close> for offsets \<open>0 \<le> a\<close>, \<open>0 \<le> b\<close>: Python clamps both to the length, and
  the slice is empty when \<open>b \<le> a\<close>.
\<close>

definition slice :: "'a list \<Rightarrow> nat \<Rightarrow> nat \<Rightarrow> 'a list" where
  "slice xs a b = take (b - a) (drop a xs)"

section \<open>Delimiter matcher: \<open>find_matching_brace\<close>\<close>

text \<open>
  The \<open>while\<close> loop of \<open>find_matching_brace\<close> (lines 37-46), as a function of the loop
  variables \<open>i\<close> and \<open>depth\<close> that returns their final values. The loop tests
  \<open>text[i-1] == '\\'\<close> first, and only then looks at \<open>text[i]\<close>. \<open>depth\<close> is only
  decremented inside the loop, where it is positive.
\<close>

function brace_loop :: "buffer \<Rightarrow> nat \<Rightarrow> nat \<Rightarrow> nat \<times> nat" where
  "brace_loop text i depth =
     (if i < length text \<and> depth > 0 then
        (if i > 0 \<and> text ! (i - 1) = BACKSLASH then brace_loop text (i + 1) depth
         else if text ! i = LBRACE then brace_loop text (i + 1) (depth + 1)
         else if text ! i = RBRACE then brace_loop text (i + 1) (depth - 1)
         else brace_loop text (i + 1) depth)
      else (i, depth))"
  by pat_completeness auto
termination
  by (relation "measure (\<lambda>(text, i, depth). length text - i)") auto

declare brace_loop.simps [simp del]

text \<open>
  \<open>find_matching_brace\<close> returns \<open>-1\<close> for failure and the offset just past the closing
  brace otherwise; \<open>None\<close> stands for \<open>-1\<close>. \<open>start_idx\<close> is an offset into \<open>text\<close>
  (every call site passes \<open>match.end() - 1\<close>, which is never negative).
\<close>

definition find_matching_brace :: "buffer \<Rightarrow> nat \<Rightarrow> nat option" where
  "find_matching_brace text start_idx =
     (if start_idx \<ge> length text \<or> text ! start_idx \<noteq> LBRACE then None
      else (case brace_loop text (start_idx + 1) 1 of
              (i, depth) \<Rightarrow> if depth = 0 then Some i else None))"

section \<open>Properties of the delimiter matcher\<close>

lemma brace_loop_bounds:
  "i \<le> length buf \<Longrightarrow> brace_loop buf i d = (j, d') \<Longrightarrow> i \<le> j \<and> j \<le> length buf"
proof (induction buf i d rule: brace_loop.induct)
  case (1 buf i depth)
  show ?case
  proof (cases "i < length buf \<and> depth > 0")
    case False
    with "1.prems" show ?thesis by (simp add: brace_loop.simps [of buf i depth])
  next
    case True
    then have le: "i + 1 \<le> length buf" by simp
    from True "1.prems"(2) "1.IH"(1-4) [OF True] le show ?thesis
      by (auto simp: brace_loop.simps [of buf i depth] split: if_splits)
  qed
qed

lemma brace_loop_closed:
  "0 < d \<Longrightarrow> brace_loop buf i d = (j, 0) \<Longrightarrow> i < j \<and> buf ! (j - 1) = RBRACE"
proof (induction buf i d rule: brace_loop.induct)
  case (1 buf i depth)
  from "1.prems" have run: "i < length buf \<and> depth > 0"
    by (auto simp: brace_loop.simps [of buf i depth] split: if_splits)
  show ?case
  proof (cases "i > 0 \<and> buf ! (i - 1) = BACKSLASH")
    case True
    with run "1.prems" have "brace_loop buf (i + 1) depth = (j, 0)"
      by (simp add: brace_loop.simps [of buf i depth])
    with "1.IH"(1) [OF run True] "1.prems"(1) show ?thesis by auto
  next
    case nesc: False
    show ?thesis
    proof (cases "buf ! i = LBRACE")
      case True
      with run nesc "1.prems" have "brace_loop buf (i + 1) (depth + 1) = (j, 0)"
        by (auto simp: brace_loop.simps [of buf i depth])
      with "1.IH"(2) [OF run nesc True] show ?thesis by auto
    next
      case nopen: False
      show ?thesis
      proof (cases "buf ! i = RBRACE")
        case False
        with run nesc nopen "1.prems" have "brace_loop buf (i + 1) depth = (j, 0)"
          by (auto simp: brace_loop.simps [of buf i depth])
        with "1.IH"(4) [OF run nesc nopen False] "1.prems"(1) show ?thesis by auto
      next
        case True
        with run nesc nopen "1.prems" have step: "brace_loop buf (i + 1) (depth - 1) = (j, 0)"
          by (auto simp: brace_loop.simps [of buf i depth])
        show ?thesis
        proof (cases "depth - 1 = 0")
          case z: True
          with step have "j = i + 1" by (simp add: brace_loop.simps [of buf "Suc i" 0])
          with True show ?thesis by simp
        next
          case False
          then have "0 < depth - 1" by simp
          with "1.IH"(3) [OF run nesc nopen True] step show ?thesis by auto
        qed
      qed
    qed
  qed
qed

lemma find_matching_brace_Some:
  assumes "find_matching_brace buf k = Some i"
  shows "k < i \<and> i \<le> length buf \<and> buf ! k = LBRACE \<and> buf ! (i - 1) = RBRACE"
proof -
  from assms have open_ok: "k < length buf" "buf ! k = LBRACE"
    by (auto simp: find_matching_brace_def split: if_splits)
  with assms have loop: "brace_loop buf (k + 1) 1 = (i, 0)"
    by (auto simp: find_matching_brace_def split: if_splits prod.splits)
  from open_ok have "k + 1 \<le> length buf" by simp
  from brace_loop_bounds [OF this loop] brace_loop_closed [OF _ loop] open_ok
  show ?thesis by simp
qed

text \<open>
  Content without escapes in which every brace has its partner: the empty text, a
  character that is neither a brace nor a backslash, balanced content in a pair of braces,
  and two balanced texts one after the other.
\<close>

inductive balanced :: "buffer \<Rightarrow> bool" where
  empty: "balanced []"
| plain: "c \<noteq> LBRACE \<Longrightarrow> c \<noteq> RBRACE \<Longrightarrow> c \<noteq> BACKSLASH \<Longrightarrow> balanced [c]"
| nest: "balanced b \<Longrightarrow> balanced (LBRACE # b @ [RBRACE])"
| seq: "balanced b1 \<Longrightarrow> balanced b2 \<Longrightarrow> balanced (b1 @ b2)"

lemma balanced_no_backslash: "balanced b \<Longrightarrow> BACKSLASH \<notin> set b"
  by (induction rule: balanced.induct) auto

lemma brace_loop_step:
  "i < length buf \<Longrightarrow> 0 < d \<Longrightarrow> i = 0 \<or> buf ! (i - 1) \<noteq> BACKSLASH \<Longrightarrow>
   brace_loop buf i d =
     brace_loop buf (i + 1)
       (if buf ! i = LBRACE then d + 1 else if buf ! i = RBRACE then d - 1 else d)"
  by (subst brace_loop.simps) auto

lemma last_not_backslash:
  "pre = [] \<or> last pre \<noteq> BACKSLASH \<Longrightarrow> BACKSLASH \<notin> set b \<Longrightarrow>
   pre @ b = [] \<or> last (pre @ b) \<noteq> BACKSLASH"
  by (cases b rule: rev_cases) auto

lemma lookback_ok:
  "pre = [] \<or> last pre \<noteq> BACKSLASH \<Longrightarrow>
   length pre = 0 \<or> (pre @ t) ! (length pre - 1) \<noteq> BACKSLASH"
  by (cases pre rule: rev_cases) (auto simp: nth_append)

lemma balanced_loop:
  "balanced b \<Longrightarrow> 0 < d \<Longrightarrow> pre = [] \<or> last pre \<noteq> BACKSLASH \<Longrightarrow>
   brace_loop (pre @ b @ post) (length pre) d =
   brace_loop (pre @ b @ post) (length pre + length b) d"
proof (induction arbitrary: pre post d rule: balanced.induct)
  case empty
  then show ?case by simp
next
  case (plain c)
  from brace_loop_step [of "length pre" "pre @ [c] @ post" d] plain lookback_ok [OF plain(5)]
  show ?case by (simp add: nth_append)
next
  case (nest b)
  let ?buf = "pre @ (LBRACE # b @ [RBRACE]) @ post"
  have 1: "brace_loop ?buf (length pre) d = brace_loop ?buf (length pre + 1) (d + 1)"
    using brace_loop_step [of "length pre" ?buf d] nest.prems lookback_ok [OF nest.prems(2)]
    by (simp add: nth_append)
  have "brace_loop ((pre @ [LBRACE]) @ b @ (RBRACE # post)) (length (pre @ [LBRACE])) (d + 1) =
        brace_loop ((pre @ [LBRACE]) @ b @ (RBRACE # post))
          (length (pre @ [LBRACE]) + length b) (d + 1)"
    by (rule nest.IH) simp_all
  then have 2: "brace_loop ?buf (length pre + 1) (d + 1) =
                brace_loop ?buf (length pre + 1 + length b) (d + 1)"
    by simp
  have lb: "pre @ [LBRACE] @ b = [] \<or> last (pre @ [LBRACE] @ b) \<noteq> BACKSLASH"
    using last_not_backslash [of "pre @ [LBRACE]" b] balanced_no_backslash [OF nest.hyps]
    by simp
  have "?buf = (pre @ [LBRACE] @ b) @ (RBRACE # post)" by simp
  with lookback_ok [OF lb, of "RBRACE # post"]
  have look: "?buf ! (length pre + 1 + length b - 1) \<noteq> BACKSLASH" by simp
  have at: "?buf ! (length pre + 1 + length b) = RBRACE"
    by (simp add: nth_append)
  have 3: "brace_loop ?buf (length pre + 1 + length b) (d + 1) =
           brace_loop ?buf (length pre + 1 + length b + 1) d"
    using brace_loop_step [of "length pre + 1 + length b" ?buf "d + 1"] look at
    by simp
  have len: "length pre + length (LBRACE # b @ [RBRACE]) = length pre + 1 + length b + 1"
    by simp
  show ?case unfolding len by (rule trans [OF 1 trans [OF 2 3]])
next
  case (seq b1 b2)
  let ?buf = "pre @ b1 @ b2 @ post"
  have "brace_loop (pre @ b1 @ (b2 @ post)) (length pre) d =
        brace_loop (pre @ b1 @ (b2 @ post)) (length pre + length b1) d"
    by (rule seq.IH(1)) (use seq.prems in simp_all)
  then have A: "brace_loop ?buf (length pre) d = brace_loop ?buf (length pre + length b1) d"
    by (simp only: append_assoc)
  have "brace_loop ((pre @ b1) @ b2 @ post) (length (pre @ b1)) d =
        brace_loop ((pre @ b1) @ b2 @ post) (length (pre @ b1) + length b2) d"
    by (rule seq.IH(2))
      (use seq.prems last_not_backslash [OF seq.prems(2) balanced_no_backslash [OF seq.hyps(1)]]
        in simp_all)
  then have B: "brace_loop ?buf (length pre + length b1) d =
                brace_loop ?buf (length pre + length b1 + length b2) d"
    by (simp only: append_assoc length_append)
  have len: "length pre + length (b1 @ b2) = length pre + length b1 + length b2"
    by simp
  show ?case unfolding len append_assoc by (rule trans [OF A B])
qed

lemma balanced_match:
  assumes "balanced b"
  shows "find_matching_brace (pre @ LBRACE # b @ RBRACE # post) (length pre) =
         Some (length pre + length b + 2)"
proof -
  let ?buf = "pre @ LBRACE # b @ RBRACE # post"
  have eq: "?buf = (pre @ [LBRACE]) @ b @ (RBRACE # post)" by simp
  have 1: "brace_loop ?buf (length pre + 1) 1 = brace_loop ?buf (length pre + 1 + length b) 1"
    using balanced_loop [OF assms, of 1 "pre @ [LBRACE]" "RBRACE # post"] by simp
  have lb: "pre @ [LBRACE] @ b = [] \<or> last (pre @ [LBRACE] @ b) \<noteq> BACKSLASH"
    using last_not_backslash [of "pre @ [LBRACE]" b] balanced_no_backslash [OF assms]
    by simp
  have look: "?buf ! (length pre + 1 + length b - 1) \<noteq> BACKSLASH"
    using lookback_ok [OF lb, of "RBRACE # post"] by simp
  have at: "?buf ! (length pre + 1 + length b) = RBRACE"
    using nth_append_length [of "pre @ [LBRACE] @ b" RBRACE post] by simp
  have 2: "brace_loop ?buf (length pre + 1 + length b) 1 =
           brace_loop ?buf (length pre + 1 + length b + 1) 0"
    using brace_loop_step [of "length pre + 1 + length b" ?buf 1] look at by simp
  have 3: "brace_loop ?buf (length pre + 1 + length b + 1) 0 = (length pre + length b + 2, 0)"
    by (subst brace_loop.simps) simp
  have "brace_loop ?buf (length pre + 1) 1 = (length pre + length b + 2, 0)"
    by (rule trans [OF 1 trans [OF 2 3]])
  moreover have "length pre < length ?buf" "?buf ! length pre = LBRACE"
    by simp_all
  ultimately show ?thesis
    by (simp add: find_matching_brace_def)
qed

lemma unbalanced_fails:
  assumes "balanced b1" "balanced b2"
  shows "find_matching_brace (pre @ LBRACE # b1 @ LBRACE # b2) (length pre) = None"
proof -
  let ?buf = "pre @ LBRACE # b1 @ LBRACE # b2"
  have 1: "brace_loop ?buf (length pre + 1) 1 = brace_loop ?buf (length pre + 1 + length b1) 1"
    using balanced_loop [OF assms(1), of 1 "pre @ [LBRACE]" "LBRACE # b2"] by simp
  have lb: "pre @ [LBRACE] @ b1 = [] \<or> last (pre @ [LBRACE] @ b1) \<noteq> BACKSLASH"
    using last_not_backslash [of "pre @ [LBRACE]" b1] balanced_no_backslash [OF assms(1)]
    by simp
  have look: "?buf ! (length pre + 1 + length b1 - 1) \<noteq> BACKSLASH"
    using lookback_ok [OF lb, of "LBRACE # b2"] by simp
  have at: "?buf ! (length pre + 1 + length b1) = LBRACE"
    using nth_append_length [of "pre @ [LBRACE] @ b1" LBRACE b2] by simp
  have 2: "brace_loop ?buf (length pre + 1 + length b1) 1 =
           brace_loop ?buf (length pre + 1 + length b1 + 1) (Suc (Suc 0))"
    using brace_loop_step [of "length pre + 1 + length b1" ?buf 1] look at by simp
  have 3: "brace_loop ?buf (length pre + 1 + length b1 + 1) (Suc (Suc 0)) =
           brace_loop ?buf (length pre + 1 + length b1 + 1 + length b2) (Suc (Suc 0))"
    using balanced_loop [OF assms(2), of "Suc (Suc 0)" "pre @ [LBRACE] @ b1 @ [LBRACE]" "[]"]
    by simp
  have 4: "brace_loop ?buf (length pre + 1 + length b1 + 1 + length b2) (Suc (Suc 0)) =
           (length pre + 1 + length b1 + 1 + length b2, Suc (Suc 0))"
    by (subst brace_loop.simps) simp
  have "brace_loop ?buf (length pre + 1) 1 =
        (length pre + 1 + length b1 + 1 + length b2, Suc (Suc 0))"
    by (rule trans [OF 1 trans [OF 2 trans [OF 3 4]]])
  moreover have "length pre < length ?buf" "?buf ! length pre = LBRACE"
    by simp_all
  ultimately show ?thesis
    by (simp add: find_matching_brace_def)
qed

lemma unclosed_fails:
  assumes "balanced b"
  shows "find_matching_brace (pre @ LBRACE # b) (length pre) = None"
proof -
  let ?buf = "pre @ LBRACE # b"
  have 1: "brace_loop ?buf (length pre + 1) 1 = brace_loop ?buf (length pre + 1 + length b) 1"
    using balanced_loop [OF assms, of 1 "pre @ [LBRACE]" "[]"] by simp
  have 2: "brace_loop ?buf (length pre + 1 + length b) 1 = (length pre + 1 + length b, 1)"
    by (subst brace_loop.simps) simp
  have "brace_loop ?buf (length pre + 1) 1 = (length pre + 1 + length b, 1)"
    by (rule trans [OF 1 2])
  moreover have "length pre < length ?buf" "?buf ! length pre = LBRACE"
    by simp_all
  ultimately show ?thesis
    by (simp add: find_matching_brace_def)
qed

text \<open>
  C3. \<open>find_matching_brace\<close> is total (it is a HOL function whose loop was shown to
  terminate) and never returns an out-of-range offset: on every buffer and every start
  offset it returns either the failure value, or an offset \<open>i\<close> with
  \<open>start_idx < i \<le> len(text)\<close> such that \<open>text[start_idx]\<close> is an opening brace and
  \<open>text[i-1]\<close> is the closing brace that took the depth to 0. It fails when
  \<open>text[start_idx]\<close> is not an opening brace (or lies past the end). Around balanced
  content \<open>b\<close> it returns the offset just past the partner of the opening brace. When
  the opening brace has no partner, it reports failure rather than an offset: when only
  balanced content follows the opening brace up to the end of the buffer, as on the buffer
  \<open>{a{b}\<close> (the content is \<open>a{b}\<close>), and when balanced content, one more opening brace
  and balanced content follow it up to the end of the buffer.
\<close>

theorem find_matching_brace_safe:
  "(find_matching_brace buf k = None \<or>
      (\<exists>i. find_matching_brace buf k = Some i \<and> k < i \<and> i \<le> length buf \<and>
           buf ! k = LBRACE \<and> buf ! (i - 1) = RBRACE)) \<and>
   (k \<ge> length buf \<or> buf ! k \<noteq> LBRACE \<longrightarrow> find_matching_brace buf k = None) \<and>
   (balanced b \<longrightarrow>
      find_matching_brace (pre @ LBRACE # b @ RBRACE # post) (length pre) =
        Some (length pre + length b + 2)) \<and>
   (balanced b1 \<and> balanced b2 \<longrightarrow>
      find_matching_brace (pre @ LBRACE # b1 @ LBRACE # b2) (length pre) = None) \<and>
   (balanced b \<longrightarrow> find_matching_brace (pre @ LBRACE # b) (length pre) = None) \<and>
   find_matching_brace (ustr ''{a{b}'') 0 = None"
proof (intro conjI)
  show "find_matching_brace buf k = None \<or>
      (\<exists>i. find_matching_brace buf k = Some i \<and> k < i \<and> i \<le> length buf \<and>
           buf ! k = LBRACE \<and> buf ! (i - 1) = RBRACE)"
    using find_matching_brace_Some [of buf k] by (cases "find_matching_brace buf k") auto
  show "k \<ge> length buf \<or> buf ! k \<noteq> LBRACE \<longrightarrow> find_matching_brace buf k = None"
    by (simp add: find_matching_brace_def)
  show "balanced b \<longrightarrow>
      find_matching_brace (pre @ LBRACE # b @ RBRACE # post) (length pre) =
        Some (length pre + length b + 2)"
    using balanced_match [of b pre post] by blast
  show "balanced b1 \<and> balanced b2 \<longrightarrow>
      find_matching_brace (pre @ LBRACE # b1 @ LBRACE # b2) (length pre) = None"
    using unbalanced_fails [of b1 b2 pre] by blast
  show "balanced b \<longrightarrow> find_matching_brace (pre @ LBRACE # b) (length pre) = None"
    using unclosed_fails [of b pre] by blast
  show "find_matching_brace (ustr ''{a{b}'') 0 = None"
    by (simp add: find_matching_brace_def ustr_def brace_loop.simps)
qed

theorem find_matching_brace_safe_witness:
  "find_matching_brace (ustr ''x{a{b}c}d'') 1 = Some 8 \<and>
   (1::nat) < 8 \<and> 8 \<le> length (ustr ''x{a{b}c}d'') \<and>
   ustr ''x{a{b}c}d'' ! 1 = LBRACE \<and> ustr ''x{a{b}c}d'' ! (8 - 1) = RBRACE \<and>
   ustr ''x{a{b}c}d'' ! 0 \<noteq> LBRACE \<and> find_matching_brace (ustr ''x{a{b}c}d'') 0 = None \<and>
   balanced (ustr ''a{b}c'') \<and>
   find_matching_brace (ustr ''x'' @ LBRACE # ustr ''a{b}c'' @ RBRACE # ustr ''d'')
     (length (ustr ''x'')) = Some (length (ustr ''x'') + length (ustr ''a{b}c'') + 2) \<and>
   find_matching_brace (ustr ''x'' @ LBRACE # ustr ''a{b}c'' @ LBRACE # ustr ''a{b}c'')
     (length (ustr ''x'')) = None \<and>
   find_matching_brace (ustr ''x'' @ LBRACE # ustr ''a{b}c'') (length (ustr ''x'')) = None"
proof -
  have a: "balanced [97]" and b: "balanced [98]" and c: "balanced [99]"
    by (rule balanced.plain; simp)+
  from balanced.seq [OF a balanced.seq [OF balanced.nest [OF b] c]]
  have bal: "balanced (ustr ''a{b}c'')" by (simp add: ustr_def)
  have run: "find_matching_brace (ustr ''x{a{b}c}d'') 1 = Some 8"
    "find_matching_brace (ustr ''x{a{b}c}d'') 0 = None"
    by (simp_all add: find_matching_brace_def ustr_def brace_loop.simps)
  from bal run
    find_matching_brace_safe [where buf = "ustr ''x{a{b}c}d''" and k = 1 and b = "ustr ''a{b}c''"
      and ?b1.0 = "ustr ''a{b}c''" and ?b2.0 = "ustr ''a{b}c''" and pre = "ustr ''x''"
      and post = "ustr ''d''"]
  show ?thesis by (simp add: ustr_def)
qed

text \<open>
  C4 (as stated, refuted). The claim says that in the three-character sequence backslash,
  backslash, brace the brace is a real one that counts toward the depth. The loop looks at
  the one character before \<open>i\<close> only: the brace stands right after a backslash and is
  skipped. After \<open>{\\{\<close> the depth is still 1, not 2, and in \<open>{\\{}}\<close> the first closing
  brace already matches the opening one.
\<close>

theorem escaped_backslash_brace_counterexample:
  "brace_loop (ustr ''{'' @ [BACKSLASH, BACKSLASH] @ ustr ''{'') 1 1 = (4, 1) \<and>
   snd (brace_loop (ustr ''{'' @ [BACKSLASH, BACKSLASH] @ ustr ''{'') 1 1) \<noteq> 2 \<and>
   find_matching_brace (ustr ''{'' @ [BACKSLASH, BACKSLASH] @ ustr ''{}}'') 0 = Some 5"
  by (simp add: find_matching_brace_def ustr_def brace_loop.simps)

text \<open>
  C4 (amended). The escape test is a lookback of one character with no escape state: while
  the loop runs, whatever character stands right after a backslash is skipped, whatever
  stands before that backslash; so the brace of backslash-brace and the brace of
  backslash-backslash-brace are both left out of the depth. An opening brace that is not
  right after a backslash is counted.
\<close>

theorem escape_is_single_lookback:
  "(0 < d \<longrightarrow>
      brace_loop (pre @ BACKSLASH # c # post) (length pre + 1) d =
      brace_loop (pre @ BACKSLASH # c # post) (length pre + 2) d) \<and>
   (0 < d \<and> (pre = [] \<or> last pre \<noteq> BACKSLASH) \<longrightarrow>
      brace_loop (pre @ LBRACE # post) (length pre) d =
      brace_loop (pre @ LBRACE # post) (length pre + 1) (d + 1))"
proof (intro conjI impI)
  assume "0 < d"
  then show "brace_loop (pre @ BACKSLASH # c # post) (length pre + 1) d =
      brace_loop (pre @ BACKSLASH # c # post) (length pre + 2) d"
    by (simp add: brace_loop.simps [of "pre @ BACKSLASH # c # post" "Suc (length pre)" d])
next
  assume a: "0 < d \<and> (pre = [] \<or> last pre \<noteq> BACKSLASH)"
  have "pre \<noteq> [] \<Longrightarrow> (pre @ LBRACE # post) ! (length pre - 1) = last pre"
    by (simp add: nth_append last_conv_nth)
  with a show "brace_loop (pre @ LBRACE # post) (length pre) d =
      brace_loop (pre @ LBRACE # post) (length pre + 1) (d + 1)"
    by (auto simp: brace_loop.simps [of "pre @ LBRACE # post" "length pre" d])
qed

theorem escape_is_single_lookback_witness:
  "(0::nat) < 1 \<and>
   brace_loop ([LBRACE, BACKSLASH] @ BACKSLASH # LBRACE # []) (length [LBRACE, BACKSLASH] + 1) 1 =
   brace_loop ([LBRACE, BACKSLASH] @ BACKSLASH # LBRACE # []) (length [LBRACE, BACKSLASH] + 2) 1 \<and>
   last [LBRACE, 97] \<noteq> BACKSLASH \<and>
   brace_loop ([LBRACE, 97] @ LBRACE # []) (length [LBRACE, 97]) 1 =
   brace_loop ([LBRACE, 97] @ LBRACE # []) (length [LBRACE, 97] + 1) (1 + 1)"
  using escape_is_single_lookback [of 1 "[LBRACE, BACKSLASH]" LBRACE "[]"]
    escape_is_single_lookback [of 1 "[LBRACE, 97]" 0 "[]"]
  by simp


section \<open>The regular expressions of the program\<close>

text \<open>
  Every pattern the program hands to \<open>re\<close> (but the pattern for quoted strings, below) is a
  sequence of items, each a class of single characters that is taken once (\<open>One\<close>), greedily
  any number of times (\<open>Star\<close>, for \<open>\s*\<close> and the tail of \<open>\d+\<close>) or lazily any number of
  times (\<open>Lazy\<close>, for \<open>.*?\<close>). The classes:
  \<^item> \<open>Lit c\<close>: the character \<open>c\<close>;
  \<^item> \<open>CI c\<close>: the lower-case ASCII letter \<open>c\<close> under \<open>re.IGNORECASE\<close>: the letter, its
    upper-case form and, for \<open>k\<close>, the Kelvin sign U+212A;
  \<^item> \<open>Space\<close>: \<open>\s\<close> on \<open>str\<close>, the Unicode white space characters;
  \<^item> \<open>Digit\<close>: \<open>\d\<close> on \<open>str\<close>, the Unicode decimal digits (category Nd, here the table
    of Unicode 14.0, that of Python 3.11): the digits \<open>0\<close> to \<open>9\<close> of each script are ten
    consecutive code points, and \<open>digit_zeros\<close> lists the code point of each \<open>0\<close>;
  \<^item> \<open>AnyChar\<close>: \<open>.\<close> under \<open>re.DOTALL\<close>.
\<close>

datatype cls = Lit nat | CI nat | Digit | Space | AnyChar

datatype item = One cls | Star cls | Lazy cls

definition is_space :: "nat \<Rightarrow> bool" where
  "is_space c \<longleftrightarrow>
     (9 \<le> c \<and> c \<le> 13) \<or> (28 \<le> c \<and> c \<le> 32) \<or> c = 133 \<or> c = 160 \<or> c = 5760 \<or>
     (8192 \<le> c \<and> c \<le> 8202) \<or> c = 8232 \<or> c = 8233 \<or> c = 8239 \<or> c = 8287 \<or> c = 12288"

definition digit_zeros :: "nat list" where
  "digit_zeros =
    [48, 1632, 1776, 1984, 2406, 2534, 2662, 2790, 2918, 3046, 3174, 3302, 3430, 3558, 3664,
     3792, 3872, 4160, 4240, 6112, 6160, 6470, 6608, 6784, 6800, 6992, 7088, 7232, 7248, 42528,
     43216, 43264, 43472, 43504, 43600, 44016, 65296, 66720, 68912, 69734, 69872, 69942, 70096,
     70384, 70736, 70864, 71248, 71360, 71472, 71904, 72016, 72784, 73040, 73120, 92768, 92864,
     93008, 120782, 120792, 120802, 120812, 120822, 123200, 123632, 125264, 130032]"

definition is_digit :: "nat \<Rightarrow> bool" where
  "is_digit c \<longleftrightarrow> list_ex (\<lambda>z. z \<le> c \<and> c < z + 10) digit_zeros"

text \<open>The value of a decimal digit: its distance from the \<open>0\<close> of its script.\<close>

definition digit_value :: "nat \<Rightarrow> nat" where
  "digit_value c =
     (case find (\<lambda>z. z \<le> c \<and> c < z + 10) digit_zeros of Some z \<Rightarrow> c - z | None \<Rightarrow> 0)"

fun cls_ok :: "cls \<Rightarrow> nat \<Rightarrow> bool" where
  "cls_ok (Lit a) c = (c = a)"
| "cls_ok (CI a) c = (c = a \<or> c + 32 = a \<or> (a = 107 \<and> c = 8490))"
| "cls_ok Digit c = is_digit c"
| "cls_ok Space c = is_space c"
| "cls_ok AnyChar c = True"

text \<open>
  \<open>re_match p s\<close> matches the pattern \<open>p\<close> at the start of \<open>s\<close>, trying the alternatives in
  the order of a backtracking matcher: a greedy item first takes one more character and
  gives it back when the rest fails, a lazy item first tries the rest. The result lists how
  many characters each item took; \<open>None\<close> is no match.
\<close>

fun bump :: "nat list \<Rightarrow> nat list" where
  "bump [] = []"
| "bump (n # ns) = Suc n # ns"

fun re_match :: "item list \<Rightarrow> buffer \<Rightarrow> nat list option" where
  "re_match [] s = Some []"
| "re_match (One k # p) [] = None"
| "re_match (One k # p) (c # cs) =
     (if cls_ok k c then map_option ((#) 1) (re_match p cs) else None)"
| "re_match (Star k # p) [] = map_option ((#) 0) (re_match p [])"
| "re_match (Star k # p) (c # cs) =
     (if cls_ok k c then
        (case re_match (Star k # p) cs of
           Some ns \<Rightarrow> Some (bump ns)
         | None \<Rightarrow> map_option ((#) 0) (re_match p (c # cs)))
      else map_option ((#) 0) (re_match p (c # cs)))"
| "re_match (Lazy k # p) [] = map_option ((#) 0) (re_match p [])"
| "re_match (Lazy k # p) (c # cs) =
     (case re_match p (c # cs) of
        Some ns \<Rightarrow> Some (0 # ns)
      | None \<Rightarrow> if cls_ok k c then map_option bump (re_match (Lazy k # p) cs) else None)"

text \<open>
  \<open>re.search(p, s)\<close>: the match at the leftmost offset that has one, as the offset and the
  item lengths. \<open>m_start\<close> and \<open>m_end\<close> are \<open>match.start()\<close> and \<open>match.end()\<close>;
  \<open>m_group s m i j\<close> is the text that items \<open>i\<close> to \<open>j - 1\<close> matched in \<open>s\<close>.
\<close>

fun re_search :: "item list \<Rightarrow> buffer \<Rightarrow> (nat \<times> nat list) option" where
  "re_search p [] = map_option (Pair 0) (re_match p [])"
| "re_search p (c # cs) =
     (case re_match p (c # cs) of
        Some ns \<Rightarrow> Some (0, ns)
      | None \<Rightarrow> map_option (\<lambda>(k, ns). (Suc k, ns)) (re_search p cs))"

definition m_start :: "nat \<times> nat list \<Rightarrow> nat" where
  "m_start m = fst m"

definition m_end :: "nat \<times> nat list \<Rightarrow> nat" where
  "m_end m = fst m + sum_list (snd m)"

definition m_group :: "buffer \<Rightarrow> nat \<times> nat list \<Rightarrow> nat \<Rightarrow> nat \<Rightarrow> buffer" where
  "m_group s m i j =
     slice s (fst m + sum_list (take i (snd m))) (fst m + sum_list (take j (snd m)))"

definition ci_word :: "string \<Rightarrow> item list" where
  "ci_word w = map (\<lambda>c. One (CI (of_char c))) w"

text \<open>The tail \<open>\s*=\s*\{\<close> that all header patterns share.\<close>

definition eq_brace :: "item list" where
  "eq_brace = [Star Space, One (Lit 61), Star Space, One (Lit LBRACE)]"

text \<open>\<open>block_(\d+)\s*=\s*\{\<close>; group 1 is items 6 and 7.\<close>

definition block_to_pattern :: "item list" where
  "block_to_pattern = ci_word ''block'' @ [One (Lit 95), One Digit, Star Digit] @ eq_brace"

text \<open>\<open>\["\d+_(\d+)"\]\s*=\s*\{\<close>; group 1 is items 5 and 6.\<close>

definition block_from_pattern :: "item list" where
  "block_from_pattern =
     [One (Lit 91), One (Lit DQUOTE), One Digit, Star Digit, One (Lit 95), One Digit, Star Digit,
      One (Lit DQUOTE), One (Lit 93)] @ eq_brace"

text \<open>\<open>text\s*=\s*\{\<close>, \<open>ja\s*=\s*\{\<close> and \<open>en\s*=\s*\{\<close>.\<close>

definition section_pattern :: "string \<Rightarrow> item list" where
  "section_pattern w = ci_word w @ eq_brace"

text \<open>\<open>(name\s*=\s*\{)(.*?)(\})\<close>: group 1 is items 0 to 7, group 2 item 8, group 3 item 9.\<close>

definition name_pattern :: "item list" where
  "name_pattern = ci_word ''name'' @ eq_brace @ [Lazy AnyChar, One (Lit RBRACE)]"

text \<open>
  \<open>int(s)\<close> for a string of decimal digits (of any script, as \<open>\d+\<close> matched them):
  leading zeros are allowed and the value is unbounded. (Interpreters that limit the length
  of the strings \<open>int\<close> converts raise on ids of several thousand digits; such ids are
  outside this model.)
\<close>

definition int_of_digits :: "buffer \<Rightarrow> int" where
  "int_of_digits ds = foldl (\<lambda>a c. 10 * a + int (digit_value c)) 0 ds"


section \<open>Block locator: \<open>extract_blocks_to\<close> and \<open>extract_blocks_from\<close>\<close>

text \<open>\<open>ASTBlock\<close>. The field \<open>end\<close> is called \<open>end_pos\<close> here.\<close>

record block =
  start :: nat
  end_pos :: nat
  content :: buffer
  block_id :: int
  raw_header :: buffer

text \<open>
  The two functions are the same code line for line, but for the pattern and thereby the
  items that make up group 1. One loop, with the file convention as a parameter, stands for
  both; \<open>extract_loop f s pos\<close> is the list of blocks that the \<open>while\<close> loop appends
  from the scan position \<open>pos\<close> on.
\<close>

datatype form = To | From

fun header_pattern :: "form \<Rightarrow> item list" where
  "header_pattern To = block_to_pattern"
| "header_pattern From = block_from_pattern"

fun id_group :: "form \<Rightarrow> nat \<times> nat" where
  "id_group To = (6, 8)"
| "id_group From = (5, 7)"

text \<open>Lengths of matches, needed to see that the scan position moves forward.\<close>

fun min_len :: "item list \<Rightarrow> nat" where
  "min_len [] = 0"
| "min_len (One k # p) = Suc (min_len p)"
| "min_len (Star k # p) = min_len p"
| "min_len (Lazy k # p) = min_len p"

lemma bump_length: "length (bump ns) = length ns"
  by (cases ns) auto

lemma bump_sum: "ns \<noteq> [] \<Longrightarrow> sum_list (bump ns) = Suc (sum_list ns)"
  by (cases ns) auto

lemma re_match_length: "re_match p s = Some ns \<Longrightarrow> length ns = length p"
  by (induction p s arbitrary: ns rule: re_match.induct)
    (auto split: if_splits option.splits simp: bump_length)

lemma re_match_nonempty: "re_match (i # p) s = Some ns \<Longrightarrow> ns \<noteq> []"
  using re_match_length by fastforce

lemma re_match_sum_le: "re_match p s = Some ns \<Longrightarrow> sum_list ns \<le> length s"
proof (induction p s arbitrary: ns rule: re_match.induct)
  case (5 k p c cs)
  then show ?case
    by (auto split: if_splits option.splits simp: bump_sum dest: re_match_nonempty)
next
  case (7 k p c cs)
  then show ?case
    by (fastforce split: if_splits option.splits simp: bump_sum dest: re_match_nonempty)
qed (auto split: if_splits option.splits)

lemma re_match_min_len: "re_match p s = Some ns \<Longrightarrow> min_len p \<le> sum_list ns"
proof (induction p s arbitrary: ns rule: re_match.induct)
  case (5 k p c cs)
  then show ?case
    by (fastforce split: if_splits option.splits simp: bump_sum dest: re_match_nonempty)
next
  case (7 k p c cs)
  then show ?case
    by (fastforce split: if_splits option.splits simp: bump_sum dest: re_match_nonempty)
qed (auto split: if_splits option.splits)

lemma re_search_Some:
  "re_search p s = Some (k, ns) \<Longrightarrow>
     k \<le> length s \<and> re_match p (drop k s) = Some ns \<and> (\<forall>j<k. re_match p (drop j s) = None)"
proof (induction s arbitrary: k)
  case Nil
  then show ?case by auto
next
  case (Cons c cs)
  show ?case
  proof (cases "re_match p (c # cs)")
    case (Some a)
    with Cons.prems show ?thesis by simp
  next
    case None
    with Cons.prems obtain k' where k': "k = Suc k'" "re_search p cs = Some (k', ns)"
      by auto
    from Cons.IH [OF k'(2)] None k'(1) show ?thesis
      by (auto simp: less_Suc_eq_0_disj)
  qed
qed

lemma re_search_end_le:
  "re_search p s = Some m \<Longrightarrow> m_end m \<le> length s"
  using re_search_Some [of p s "fst m" "snd m"] re_match_sum_le [of p "drop (fst m) s" "snd m"]
  by (auto simp: m_end_def)

lemma re_search_min_len:
  "re_search p s = Some m \<Longrightarrow> m_start m + min_len p \<le> m_end m"
  using re_search_Some [of p s "fst m" "snd m"] re_match_min_len [of p "drop (fst m) s" "snd m"]
  by (auto simp: m_end_def m_start_def)

lemma min_len_header: "0 < min_len (header_pattern f)"
  by (cases f) (simp_all add: block_to_pattern_def block_from_pattern_def ci_word_def eq_brace_def)

lemma header_end_pos: "re_search (header_pattern f) s = Some m \<Longrightarrow> 0 < m_end m"
  using re_search_min_len [of "header_pattern f" s m] min_len_header [of f] by simp

function extract_loop :: "form \<Rightarrow> buffer \<Rightarrow> nat \<Rightarrow> block list" where
  "extract_loop f s pos =
     (if pos < length s then
        (case re_search (header_pattern f) (drop pos s) of
           None \<Rightarrow> []
         | Some m \<Rightarrow>
             (case find_matching_brace s (pos + m_end m - 1) of
                None \<Rightarrow> extract_loop f s (pos + m_end m)
              | Some e \<Rightarrow>
                  \<lparr>start = pos + m_start m, end_pos = e,
                   content = slice s (pos + m_start m) e,
                   block_id = int_of_digits
                     (m_group (drop pos s) m (fst (id_group f)) (snd (id_group f))),
                   raw_header = slice s (pos + m_start m) (pos + m_end m)\<rparr>
                  # extract_loop f s e))
      else [])"
  by pat_completeness auto
termination
proof (relation "measure (\<lambda>(f, s, pos). length s - pos)")
  show "wf (measure (\<lambda>(f, s, pos). length s - pos))" by simp
next
  fix f s pos m
  assume "pos < length s" "re_search (header_pattern f) (drop pos s) = Some m"
  then show "((f, s, pos + m_end m), (f, s, pos)) \<in> measure (\<lambda>(f, s, pos). length s - pos)"
    using header_end_pos [of f "drop pos s" m] by simp
next
  fix f s pos m e
  assume "pos < length s" "re_search (header_pattern f) (drop pos s) = Some m"
    "find_matching_brace s (pos + m_end m - 1) = Some e"
  then show "((f, s, e), (f, s, pos)) \<in> measure (\<lambda>(f, s, pos). length s - pos)"
    using header_end_pos [of f "drop pos s" m] find_matching_brace_Some [of s "pos + m_end m - 1" e]
    by (simp, arith)
qed

declare extract_loop.simps [simp del]

definition extract_blocks_to :: "buffer \<Rightarrow> block list" where
  "extract_blocks_to s = extract_loop To s 0"

definition extract_blocks_from :: "buffer \<Rightarrow> block list" where
  "extract_blocks_from s = extract_loop From s 0"


definition extract_blocks :: "form \<Rightarrow> buffer \<Rightarrow> block list" where
  "extract_blocks f s = (case f of To \<Rightarrow> extract_blocks_to s | From \<Rightarrow> extract_blocks_from s)"

section \<open>Properties of the block locator\<close>

text \<open>
  \<open>ordered_from lo bs\<close>: the blocks of \<open>bs\<close> are not empty, start at or after \<open>lo\<close>, and each
  starts at or after the end of the one before.
\<close>

fun ordered_from :: "nat \<Rightarrow> block list \<Rightarrow> bool" where
  "ordered_from lo [] = True"
| "ordered_from lo (b # bs) = (lo \<le> start b \<and> start b < end_pos b \<and> ordered_from (end_pos b) bs)"

lemma extract_loop_ordered: "ordered_from pos (extract_loop f s pos)"
proof (induction f s pos rule: extract_loop.induct)
  case (1 f s pos)
  show ?case
  proof (cases "pos < length s")
    case False
    then show ?thesis by (simp add: extract_loop.simps [of f s pos])
  next
    case in_range: True
    show ?thesis
    proof (cases "re_search (header_pattern f) (drop pos s)")
      case None
      with in_range show ?thesis by (simp add: extract_loop.simps [of f s pos])
    next
      case (Some m)
      note hdr = header_end_pos [OF Some] re_search_min_len [OF Some]
      show ?thesis
      proof (cases "find_matching_brace s (pos + m_end m - 1)")
        case None
        have mono: "ordered_from (pos + m_end m) bs \<Longrightarrow> ordered_from pos bs" for bs
          by (cases bs) auto
        from "1.IH"(1) [OF in_range Some None] in_range Some None mono show ?thesis
          by (simp add: extract_loop.simps [of f s pos])
      next
        case (Some e)
        from find_matching_brace_Some [OF Some] hdr min_len_header [of f]
        have "pos + m_start m < e" by auto
        with "1.IH"(2) [OF in_range \<open>re_search (header_pattern f) (drop pos s) = Some m\<close> Some]
          in_range \<open>re_search (header_pattern f) (drop pos s) = Some m\<close> Some
        show ?thesis by (simp add: extract_loop.simps [of f s pos])
      qed
    qed
  qed
qed

lemma ordered_from_sorted:
  "ordered_from lo bs \<Longrightarrow>
     sorted_wrt (\<lambda>a b. end_pos a \<le> start b) bs \<and> (\<forall>b\<in>set bs. lo \<le> start b \<and> start b < end_pos b)"
proof (induction bs arbitrary: lo)
  case Nil
  then show ?case by simp
next
  case (Cons b bs)
  from Cons.prems have "ordered_from (end_pos b) bs" by simp
  from Cons.IH [OF this] Cons.prems show ?case by fastforce
qed

text \<open>
  Every block of the result stands at a header match whose opening brace
  \<open>find_matching_brace\<close> has closed, at the block's end.
\<close>

definition block_at :: "form \<Rightarrow> buffer \<Rightarrow> block \<Rightarrow> bool" where
  "block_at f s b \<longleftrightarrow>
     (\<exists>ns. re_match (header_pattern f) (drop (start b) s) = Some ns \<and>
           find_matching_brace s (start b + sum_list ns - 1) = Some (end_pos b) \<and>
           raw_header b = slice s (start b) (start b + sum_list ns)) \<and>
     content b = slice s (start b) (end_pos b) \<and> end_pos b \<le> length s"

lemma extract_loop_block_at: "b \<in> set (extract_loop f s pos) \<Longrightarrow> block_at f s b"
proof (induction f s pos rule: extract_loop.induct)
  case (1 f s pos)
  have in_range: "pos < length s"
  proof (rule ccontr)
    assume "\<not> pos < length s"
    then have "extract_loop f s pos = []" by (simp add: extract_loop.simps [of f s pos])
    with "1.prems" show False by simp
  qed
  have "re_search (header_pattern f) (drop pos s) \<noteq> None"
  proof
    assume "re_search (header_pattern f) (drop pos s) = None"
    with in_range have "extract_loop f s pos = []" by (simp add: extract_loop.simps [of f s pos])
    with "1.prems" show False by simp
  qed
  then obtain m where m: "re_search (header_pattern f) (drop pos s) = Some m"
    by blast
  from re_search_Some [of "header_pattern f" "drop pos s" "fst m" "snd m"] m
  have mt: "re_match (header_pattern f) (drop (pos + m_start m) s) = Some (snd m)"
    by (simp add: m_start_def add.commute)
  show ?case
  proof (cases "find_matching_brace s (pos + m_end m - 1)")
    case None
    with "1.prems" in_range m have "b \<in> set (extract_loop f s (pos + m_end m))"
      by (simp add: extract_loop.simps [of f s pos])
    from "1.IH"(1) [OF in_range m None this] show ?thesis .
  next
    case (Some e)
    let ?b = "\<lparr>start = pos + m_start m, end_pos = e,
                   content = slice s (pos + m_start m) e,
                   block_id = int_of_digits
                     (m_group (drop pos s) m (fst (id_group f)) (snd (id_group f))),
                   raw_header = slice s (pos + m_start m) (pos + m_end m)\<rparr>"
    from "1.prems" in_range m Some have "b = ?b \<or> b \<in> set (extract_loop f s e)"
      by (simp add: extract_loop.simps [of f s pos])
    then show ?thesis
    proof
      assume "b \<in> set (extract_loop f s e)"
      from "1.IH"(2) [OF in_range m Some this] show ?thesis .
    next
      assume b: "b = ?b"
      have "re_match (header_pattern f) (drop (start b) s) = Some (snd m)"
        using mt b by simp
      moreover have "find_matching_brace s (start b + sum_list (snd m) - 1) = Some (end_pos b)"
        using Some b by (simp add: m_start_def m_end_def add.assoc)
      moreover have "raw_header b = slice s (start b) (start b + sum_list (snd m))"
        using b by (simp add: m_start_def m_end_def add.assoc)
      moreover have "content b = slice s (start b) (end_pos b)" "end_pos b \<le> length s"
        using b find_matching_brace_Some [OF Some] by simp_all
      ultimately show ?thesis
        unfolding block_at_def by blast
    qed
  qed
qed

lemma extract_loop_skip:
  "pos < length s \<Longrightarrow> re_search (header_pattern f) (drop pos s) = Some m \<Longrightarrow>
   find_matching_brace s (pos + m_end m - 1) = None \<Longrightarrow>
   extract_loop f s pos = extract_loop f s (pos + m_end m)"
  by (simp add: extract_loop.simps [of f s pos])

lemma extract_loop_emit:
  "pos < length s \<Longrightarrow> re_search (header_pattern f) (drop pos s) = Some m \<Longrightarrow>
   find_matching_brace s (pos + m_end m - 1) = Some e \<Longrightarrow>
   \<exists>b. extract_loop f s pos = b # extract_loop f s e \<and> start b = pos + m_start m \<and>
       end_pos b = e"
  by (simp add: extract_loop.simps [of f s pos])

lemma extract_blocks_loop: "extract_blocks f s = extract_loop f s 0"
  by (cases f) (simp_all add: extract_blocks_def extract_blocks_to_def extract_blocks_from_def)

lemma extract_blocks_sorted:
  "sorted_wrt (\<lambda>a b. end_pos a \<le> start b) (extract_blocks f s)"
  "b \<in> set (extract_blocks f s) \<Longrightarrow> start b < end_pos b"
  using ordered_from_sorted [OF extract_loop_ordered [of 0 f s]]
  by (auto simp: extract_blocks_loop)

lemma sorted_wrt_start:
  "sorted_wrt (\<lambda>a b. end_pos a \<le> start b) bs \<Longrightarrow> \<forall>b\<in>set bs. start b < end_pos b \<Longrightarrow>
   sorted_wrt (\<lambda>a b. start a < start b) bs"
  by (induction bs) fastforce+

text \<open>
  The same block with its offsets counted from \<open>n\<close> characters further left: what a block
  of \<open>drop n s\<close> is as a block of \<open>s\<close>. The matcher and the loop look at nothing before
  the scan position, so the scan of \<open>s\<close> from \<open>n\<close> on finds the blocks that a scan of
  \<open>drop n s\<close> finds.
\<close>

definition shift_block :: "nat \<Rightarrow> block \<Rightarrow> block" where
  "shift_block n b = b\<lparr>start := n + start b, end_pos := n + end_pos b\<rparr>"

lemma brace_loop_drop:
  "0 < i \<Longrightarrow> n \<le> length buf \<Longrightarrow>
   brace_loop buf (n + i) d = (case brace_loop (drop n buf) i d of (j, d') \<Rightarrow> (n + j, d'))"
proof (induction "drop n buf" i d rule: brace_loop.induct)
  case (1 i depth)
  have len: "i < length (drop n buf) \<longleftrightarrow> n + i < length buf"
    using "1.prems" by auto
  show ?case
  proof (cases "i < length (drop n buf) \<and> depth > 0")
    case False
    with len have "\<not> (n + i < length buf \<and> depth > 0)" by simp
    then have "brace_loop buf (n + i) depth = (n + i, depth)"
      by (subst brace_loop.simps) (simp only: if_False)
    moreover from False have "brace_loop (drop n buf) i depth = (i, depth)"
      by (subst brace_loop.simps) (simp only: if_False)
    ultimately show ?thesis by simp
  next
    case True
    with len have in_range: "n + i < length buf" by simp
    from "1.prems" obtain i' where i: "i = Suc i'" by (cases i) auto
    have look: "buf ! (n + i - 1) = drop n buf ! (i - 1)"
      using "1.prems" by (simp add: i)
    have cur: "buf ! (n + i) = drop n buf ! i"
      using "1.prems" by simp
    have unf: "brace_loop buf (n + i) depth =
        (if drop n buf ! (i - 1) = BACKSLASH then brace_loop buf (n + (i + 1)) depth
         else if drop n buf ! i = LBRACE then brace_loop buf (n + (i + 1)) (depth + 1)
         else if drop n buf ! i = RBRACE then brace_loop buf (n + (i + 1)) (depth - 1)
         else brace_loop buf (n + (i + 1)) depth)"
      using in_range True "1.prems"(1)
      by (subst brace_loop.simps) (simp only: look cur add.assoc, simp)
    have unf': "brace_loop (drop n buf) i depth =
        (if drop n buf ! (i - 1) = BACKSLASH then brace_loop (drop n buf) (i + 1) depth
         else if drop n buf ! i = LBRACE then brace_loop (drop n buf) (i + 1) (depth + 1)
         else if drop n buf ! i = RBRACE then brace_loop (drop n buf) (i + 1) (depth - 1)
         else brace_loop (drop n buf) (i + 1) depth)"
      using True "1.prems"(1)
      by (subst brace_loop.simps) (simp only: if_True simp_thms)
    have pos: "0 < i + 1" by simp
    show ?thesis
      unfolding unf unf' using "1.hyps"(1-4) [OF True] "1.prems" pos
      by (simp only: split: if_split) auto
  qed
qed

lemma find_matching_brace_drop:
  "find_matching_brace buf (n + k) = map_option ((+) n) (find_matching_brace (drop n buf) k)"
proof (cases "n \<le> length buf")
  case False
  then show ?thesis by (simp add: find_matching_brace_def)
next
  case True
  have "buf ! (n + k) = drop n buf ! k" using True by simp
  moreover have "n + k \<ge> length buf \<longleftrightarrow> k \<ge> length (drop n buf)" using True by auto
  ultimately show ?thesis
    using brace_loop_drop [of "k + 1" n buf 1] True
    by (auto simp: find_matching_brace_def add.assoc split: prod.splits)
qed

lemma slice_drop: "slice s (n + a) (n + b) = slice (drop n s) a b"
  by (simp add: slice_def add.commute)

lemma extract_loop_drop:
  "extract_loop f s (n + q) = map (shift_block n) (extract_loop f (drop n s) q)"
proof (induction f "drop n s" q rule: extract_loop.induct)
  case (1 f q)
  let ?t = "drop n s"
  have len: "q < length ?t \<longleftrightarrow> n + q < length s" by auto
  have dd: "drop (n + q) s = drop q ?t" by (simp add: add.commute)
  show ?case
  proof (cases "q < length ?t")
    case False
    with len show ?thesis
      by (simp add: extract_loop.simps [of f s "n + q"] extract_loop.simps [of f ?t q])
  next
    case in_range: True
    show ?thesis
    proof (cases "re_search (header_pattern f) (drop q ?t)")
      case None
      with in_range len dd show ?thesis
        by (simp add: extract_loop.simps [of f s "n + q"] extract_loop.simps [of f ?t q])
    next
      case (Some m)
      from header_end_pos [OF Some] have me: "0 < m_end m" .
      then have idx: "n + q + m_end m - 1 = n + (q + m_end m - 1)" by simp
      have fmb: "find_matching_brace s (n + q + m_end m - 1) =
          map_option ((+) n) (find_matching_brace ?t (q + m_end m - 1))"
        unfolding idx by (rule find_matching_brace_drop)
      show ?thesis
      proof (cases "find_matching_brace ?t (q + m_end m - 1)")
        case None
        from "1.hyps"(1) [OF in_range Some None] in_range len dd Some None fmb
        show ?thesis
          by (simp add: extract_loop.simps [of f s "n + q"] extract_loop.simps [of f ?t q]
              add.assoc)
      next
        case (Some e)
        from "1.hyps"(2) [OF in_range \<open>re_search (header_pattern f) (drop q ?t) = Some m\<close> Some]
          in_range len dd \<open>re_search (header_pattern f) (drop q ?t) = Some m\<close> Some fmb
          slice_drop [of s n "q + m_start m" e] slice_drop [of s n "q + m_start m" "q + m_end m"]
        show ?thesis
          by (simp add: extract_loop.simps [of f s "n + q"] extract_loop.simps [of f ?t q]
              add.assoc shift_block_def)
      qed
    qed
  qed
qed

lemma re_search_nonempty:
  "re_search (header_pattern f) s = Some m \<Longrightarrow> 0 < length s"
  using header_end_pos [of f s m] re_search_end_le [of "header_pattern f" s m] by auto

lemma extract_blocks_none:
  "re_search (header_pattern f) s = None \<Longrightarrow> extract_blocks f s = []"
  by (simp add: extract_blocks_loop extract_loop.simps [of f s 0])

lemma extract_blocks_skip:
  assumes "re_search (header_pattern f) s = Some m"
    "find_matching_brace s (m_end m - 1) = None"
  shows "extract_blocks f s = map (shift_block (m_end m)) (extract_blocks f (drop (m_end m) s))"
proof -
  from assms re_search_nonempty [OF assms(1)]
  have "extract_blocks f s = extract_loop f s (m_end m + 0)"
    by (simp add: extract_blocks_loop extract_loop.simps [of f s 0])
  also have "\<dots> = map (shift_block (m_end m)) (extract_loop f (drop (m_end m) s) 0)"
    by (rule extract_loop_drop)
  finally show ?thesis by (simp add: extract_blocks_loop)
qed

lemma extract_blocks_emit:
  assumes "re_search (header_pattern f) s = Some m"
    "find_matching_brace s (m_end m - 1) = Some e"
  shows "extract_blocks f s =
     \<lparr>start = m_start m, end_pos = e, content = slice s (m_start m) e,
      block_id = int_of_digits (m_group s m (fst (id_group f)) (snd (id_group f))),
      raw_header = slice s (m_start m) (m_end m)\<rparr>
     # map (shift_block e) (extract_blocks f (drop e s))"
proof -
  have "extract_loop f s (e + 0) = map (shift_block e) (extract_loop f (drop e s) 0)"
    by (rule extract_loop_drop)
  with assms re_search_nonempty [OF assms(1)] show ?thesis
    by (simp add: extract_blocks_loop extract_loop.simps [of f s 0])
qed

lemmas locate_eval =
  extract_blocks_to_def extract_blocks_from_def extract_loop.simps find_matching_brace_def
  brace_loop.simps m_end_def m_start_def m_group_def slice_def int_of_digits_def
  digit_value_def block_to_pattern_def block_from_pattern_def ci_word_def eq_brace_def
  ustr_def quoted_def is_space_def is_digit_def digit_zeros_def

text \<open>
  C7. For every buffer and both file conventions (\<open>extract_blocks To\<close> is
  \<open>extract_blocks_to\<close>, \<open>extract_blocks From\<close> is \<open>extract_blocks_from\<close>, each the loop
  from offset 0):
  \<^item> the blocks returned do not overlap pairwise (each ends at or before the start of every
    later one), are ordered strictly by start offset, and each is a non-empty span of the
    buffer;
  \<^item> a block is only ever returned for a header whose opening brace \<open>find_matching_brace\<close>
    closed (\<open>block_at\<close>), so a header whose brace does not match contributes none;
  \<^item> when the scan meets a header whose brace does not match, it goes on from just past
    the header; when the brace matches, the block is the next one of the result and the
    scan goes on from the block's end;
  \<^item> so the result is fixed by the leftmost header of the buffer. With no header there is
    no block. With a leftmost header whose brace does not match, the blocks are exactly
    those that the locator finds in the text after the header (at the offsets they have in
    the whole buffer): every later well-formed block is still found. With a leftmost header
    whose brace matches at \<open>e\<close>, the blocks are that block and then exactly those that the
    locator finds in the text from \<open>e\<close> on.
  On a buffer with the blocks 0, 1, 2 and a header numbered 7 whose brace is never closed,
  the blocks found are 0, 1 and 2, in the target convention and in the source convention.
\<close>

theorem block_locator_ordered:
  "sorted_wrt (\<lambda>a b. end_pos a \<le> start b) (extract_blocks f s) \<and>
   sorted_wrt (\<lambda>a b. start a < start b) (extract_blocks f s) \<and>
   (\<forall>b\<in>set (extract_blocks f s). start b < end_pos b \<and> block_at f s b) \<and>
   (pos < length s \<and> re_search (header_pattern f) (drop pos s) = Some m \<and>
    find_matching_brace s (pos + m_end m - 1) = None \<longrightarrow>
      extract_loop f s pos = extract_loop f s (pos + m_end m)) \<and>
   (pos < length s \<and> re_search (header_pattern f) (drop pos s) = Some m \<and>
    find_matching_brace s (pos + m_end m - 1) = Some e \<longrightarrow>
      (\<exists>b. extract_loop f s pos = b # extract_loop f s e \<and> start b = pos + m_start m \<and>
           end_pos b = e)) \<and>
   extract_blocks f s = extract_loop f s 0 \<and>
   (re_search (header_pattern f) s = None \<longrightarrow> extract_blocks f s = []) \<and>
   (re_search (header_pattern f) s = Some m \<and> find_matching_brace s (m_end m - 1) = None \<longrightarrow>
      extract_blocks f s =
        map (shift_block (m_end m)) (extract_blocks f (drop (m_end m) s))) \<and>
   (re_search (header_pattern f) s = Some m \<and> find_matching_brace s (m_end m - 1) = Some e \<longrightarrow>
      extract_blocks f s =
        \<lparr>start = m_start m, end_pos = e, content = slice s (m_start m) e,
         block_id = int_of_digits (m_group s m (fst (id_group f)) (snd (id_group f))),
         raw_header = slice s (m_start m) (m_end m)\<rparr>
        # map (shift_block e) (extract_blocks f (drop e s))) \<and>
   extract_blocks To = extract_blocks_to \<and> extract_blocks From = extract_blocks_from \<and>
   map block_id (extract_blocks_to (ustr ''block_0={a}block_7={block_1={b}block_2={c}''))
     = [0, 1, 2] \<and>
   map block_id (extract_blocks_from
     (ustr ''['' @ quoted ''1_0'' @ ustr '']={a}['' @ quoted ''1_7'' @ ustr '']={['' @
      quoted ''1_1'' @ ustr '']={b}['' @ quoted ''1_2'' @ ustr '']={c}''))
     = [0, 1, 2]"
proof (intro conjI)
  show "sorted_wrt (\<lambda>a b. end_pos a \<le> start b) (extract_blocks f s)"
    by (rule extract_blocks_sorted)
  then show "sorted_wrt (\<lambda>a b. start a < start b) (extract_blocks f s)"
    using extract_blocks_sorted(2) [of _ f s] by (intro sorted_wrt_start) auto
  show "\<forall>b\<in>set (extract_blocks f s). start b < end_pos b \<and> block_at f s b"
    using extract_blocks_sorted(2) [of _ f s] extract_loop_block_at [of _ f s 0]
    by (auto simp: extract_blocks_loop)
  show "pos < length s \<and> re_search (header_pattern f) (drop pos s) = Some m \<and>
    find_matching_brace s (pos + m_end m - 1) = None \<longrightarrow>
      extract_loop f s pos = extract_loop f s (pos + m_end m)"
    using extract_loop_skip [of pos s f m] by blast
  show "pos < length s \<and> re_search (header_pattern f) (drop pos s) = Some m \<and>
    find_matching_brace s (pos + m_end m - 1) = Some e \<longrightarrow>
      (\<exists>b. extract_loop f s pos = b # extract_loop f s e \<and> start b = pos + m_start m \<and>
           end_pos b = e)"
    using extract_loop_emit [of pos s f m e] by blast
  show "extract_blocks f s = extract_loop f s 0"
    by (rule extract_blocks_loop)
  show "re_search (header_pattern f) s = None \<longrightarrow> extract_blocks f s = []"
    using extract_blocks_none [of f s] by blast
  show "re_search (header_pattern f) s = Some m \<and> find_matching_brace s (m_end m - 1) = None \<longrightarrow>
      extract_blocks f s =
        map (shift_block (m_end m)) (extract_blocks f (drop (m_end m) s))"
    using extract_blocks_skip [of f s m] by blast
  show "re_search (header_pattern f) s = Some m \<and> find_matching_brace s (m_end m - 1) = Some e \<longrightarrow>
      extract_blocks f s =
        \<lparr>start = m_start m, end_pos = e, content = slice s (m_start m) e,
         block_id = int_of_digits (m_group s m (fst (id_group f)) (snd (id_group f))),
         raw_header = slice s (m_start m) (m_end m)\<rparr>
        # map (shift_block e) (extract_blocks f (drop e s))"
    using extract_blocks_emit [of f s m e] by blast
  show "extract_blocks To = extract_blocks_to" "extract_blocks From = extract_blocks_from"
    by (auto simp: extract_blocks_def fun_eq_iff)
  show "map block_id (extract_blocks_to (ustr ''block_0={a}block_7={block_1={b}block_2={c}''))
     = [0, 1, 2]"
    by (simp add: extract_blocks_to_def extract_loop.simps find_matching_brace_def
        brace_loop.simps m_end_def m_start_def m_group_def slice_def int_of_digits_def
        digit_value_def block_to_pattern_def ci_word_def eq_brace_def ustr_def is_space_def
        is_digit_def digit_zeros_def)
  show "map block_id (extract_blocks_from
     (ustr ''['' @ quoted ''1_0'' @ ustr '']={a}['' @ quoted ''1_7'' @ ustr '']={['' @
      quoted ''1_1'' @ ustr '']={b}['' @ quoted ''1_2'' @ ustr '']={c}''))
     = [0, 1, 2]"
    by (simp add: extract_blocks_from_def extract_loop.simps find_matching_brace_def
        brace_loop.simps m_end_def m_start_def m_group_def slice_def int_of_digits_def
        digit_value_def block_from_pattern_def eq_brace_def ustr_def quoted_def is_space_def
        is_digit_def digit_zeros_def)
qed

theorem block_locator_ordered_witness:
  "extract_blocks To (ustr ''block_0={a}block_7={block_1={b}block_2={c}'') \<noteq> [] \<and>
   (11 < length (ustr ''block_0={a}block_7={block_1={b}block_2={c}'') \<and>
    re_search (header_pattern To) (drop 11 (ustr ''block_0={a}block_7={block_1={b}block_2={c}''))
      = Some (0, [1, 1, 1, 1, 1, 1, 1, 0, 0, 1, 0, 1]) \<and>
    find_matching_brace (ustr ''block_0={a}block_7={block_1={b}block_2={c}'')
      (11 + m_end (0, [1, 1, 1, 1, 1, 1, 1, 0, 0, 1, 0, 1]) - 1) = None) \<and>
   extract_loop To (ustr ''block_0={a}block_7={block_1={b}block_2={c}'') 11 =
   extract_loop To (ustr ''block_0={a}block_7={block_1={b}block_2={c}'')
     (11 + m_end (0, [1, 1, 1, 1, 1, 1, 1, 0, 0, 1, 0, 1])) \<and>
   (20 < length (ustr ''block_0={a}block_7={block_1={b}block_2={c}'') \<and>
    re_search (header_pattern To) (drop 20 (ustr ''block_0={a}block_7={block_1={b}block_2={c}''))
      = Some (0, [1, 1, 1, 1, 1, 1, 1, 0, 0, 1, 0, 1]) \<and>
    find_matching_brace (ustr ''block_0={a}block_7={block_1={b}block_2={c}'')
      (20 + m_end (0, [1, 1, 1, 1, 1, 1, 1, 0, 0, 1, 0, 1]) - 1) = Some 31) \<and>
   (\<exists>b. extract_loop To (ustr ''block_0={a}block_7={block_1={b}block_2={c}'') 20 =
          b # extract_loop To (ustr ''block_0={a}block_7={block_1={b}block_2={c}'') 31 \<and>
        start b = 20 + m_start (0, [1, 1, 1, 1, 1, 1, 1, 0, 0, 1, 0, 1]) \<and> end_pos b = 31) \<and>
   sorted_wrt (\<lambda>a b. end_pos a \<le> start b)
     (extract_blocks To (ustr ''block_0={a}block_7={block_1={b}block_2={c}'')) \<and>
   start (hd (extract_blocks To (ustr ''block_0={a}block_7={block_1={b}block_2={c}''))) <
   end_pos (hd (extract_blocks To (ustr ''block_0={a}block_7={block_1={b}block_2={c}''))) \<and>
   block_at To (ustr ''block_0={a}block_7={block_1={b}block_2={c}'')
     (hd (extract_blocks To (ustr ''block_0={a}block_7={block_1={b}block_2={c}''))) \<and>
   re_search (header_pattern To) (ustr ''ast = {}'') = None \<and>
   extract_blocks To (ustr ''ast = {}'') = [] \<and>
   (re_search (header_pattern To) (ustr ''block_7={block_1={b}block_2={c}'')
      = Some (0, [1, 1, 1, 1, 1, 1, 1, 0, 0, 1, 0, 1]) \<and>
    find_matching_brace (ustr ''block_7={block_1={b}block_2={c}'')
      (m_end (0, [1, 1, 1, 1, 1, 1, 1, 0, 0, 1, 0, 1]) - 1) = None) \<and>
   extract_blocks To (ustr ''block_7={block_1={b}block_2={c}'') =
     map (shift_block (m_end (0, [1, 1, 1, 1, 1, 1, 1, 0, 0, 1, 0, 1])))
       (extract_blocks To (drop (m_end (0, [1, 1, 1, 1, 1, 1, 1, 0, 0, 1, 0, 1]))
          (ustr ''block_7={block_1={b}block_2={c}''))) \<and>
   map block_id (extract_blocks To (drop (m_end (0, [1, 1, 1, 1, 1, 1, 1, 0, 0, 1, 0, 1]))
          (ustr ''block_7={block_1={b}block_2={c}''))) = [1, 2] \<and>
   (re_search (header_pattern From) (ustr ''['' @ quoted ''1_0'' @ ustr '']={a}['' @
       quoted ''1_7'' @ ustr '']={['' @ quoted ''1_1'' @ ustr '']={b}['' @ quoted ''1_2'' @
       ustr '']={c}'')
      = Some (0, [1, 1, 1, 0, 1, 1, 0, 1, 1, 0, 1, 0, 1]) \<and>
    find_matching_brace (ustr ''['' @ quoted ''1_0'' @ ustr '']={a}['' @ quoted ''1_7'' @
        ustr '']={['' @ quoted ''1_1'' @ ustr '']={b}['' @ quoted ''1_2'' @ ustr '']={c}'')
      (m_end (0, [1, 1, 1, 0, 1, 1, 0, 1, 1, 0, 1, 0, 1]) - 1) = Some 11) \<and>
   extract_blocks From (ustr ''['' @ quoted ''1_0'' @ ustr '']={a}['' @ quoted ''1_7'' @
       ustr '']={['' @ quoted ''1_1'' @ ustr '']={b}['' @ quoted ''1_2'' @ ustr '']={c}'') =
     \<lparr>start = m_start (0, [1, 1, 1, 0, 1, 1, 0, 1, 1, 0, 1, 0, 1]), end_pos = 11,
      content = slice (ustr ''['' @ quoted ''1_0'' @ ustr '']={a}['' @ quoted ''1_7'' @
          ustr '']={['' @ quoted ''1_1'' @ ustr '']={b}['' @ quoted ''1_2'' @ ustr '']={c}'')
          (m_start (0, [1, 1, 1, 0, 1, 1, 0, 1, 1, 0, 1, 0, 1])) 11,
      block_id = int_of_digits
        (m_group (ustr ''['' @ quoted ''1_0'' @ ustr '']={a}['' @ quoted ''1_7'' @ ustr '']={['' @
            quoted ''1_1'' @ ustr '']={b}['' @ quoted ''1_2'' @ ustr '']={c}'')
            (0, [1, 1, 1, 0, 1, 1, 0, 1, 1, 0, 1, 0, 1])
           (fst (id_group From)) (snd (id_group From))),
      raw_header = slice (ustr ''['' @ quoted ''1_0'' @ ustr '']={a}['' @ quoted ''1_7'' @
          ustr '']={['' @ quoted ''1_1'' @ ustr '']={b}['' @ quoted ''1_2'' @ ustr '']={c}'')
          (m_start (0, [1, 1, 1, 0, 1, 1, 0, 1, 1, 0, 1, 0, 1]))
        (m_end (0, [1, 1, 1, 0, 1, 1, 0, 1, 1, 0, 1, 0, 1]))\<rparr>
     # map (shift_block 11) (extract_blocks From (drop 11 (ustr ''['' @ quoted ''1_0'' @
         ustr '']={a}['' @ quoted ''1_7'' @ ustr '']={['' @ quoted ''1_1'' @ ustr '']={b}['' @
         quoted ''1_2'' @ ustr '']={c}''))) \<and>
   map block_id (extract_blocks From (drop 11 (ustr ''['' @ quoted ''1_0'' @ ustr '']={a}['' @
       quoted ''1_7'' @ ustr '']={['' @ quoted ''1_1'' @ ustr '']={b}['' @ quoted ''1_2'' @
       ustr '']={c}''))) = [1, 2]"
proof -
  let ?S = "ustr ''block_0={a}block_7={block_1={b}block_2={c}''"
  let ?S7 = "ustr ''block_7={block_1={b}block_2={c}''"
  let ?X = "ustr ''ast = {}''"
  let ?F = "ustr ''['' @ quoted ''1_0'' @ ustr '']={a}['' @ quoted ''1_7'' @ ustr '']={['' @
      quoted ''1_1'' @ ustr '']={b}['' @ quoted ''1_2'' @ ustr '']={c}''"
  let ?m = "(0, [1, 1, 1, 1, 1, 1, 1, 0, 0, 1, 0, 1]) :: nat \<times> nat list"
  let ?k = "(0, [1, 1, 1, 0, 1, 1, 0, 1, 1, 0, 1, 0, 1]) :: nat \<times> nat list"
  have a: "extract_blocks To ?S \<noteq> []"
    by (simp add: extract_blocks_def locate_eval)
  have b: "11 < length ?S" "re_search (header_pattern To) (drop 11 ?S) = Some ?m"
    "find_matching_brace ?S (11 + m_end ?m - 1) = None"
    by (simp_all add: locate_eval)
  have c: "20 < length ?S" "re_search (header_pattern To) (drop 20 ?S) = Some ?m"
    "find_matching_brace ?S (20 + m_end ?m - 1) = Some 31"
    by (simp_all add: locate_eval)
  have x: "re_search (header_pattern To) ?X = None"
    by (simp add: locate_eval)
  have d: "re_search (header_pattern To) ?S7 = Some ?m"
    "find_matching_brace ?S7 (m_end ?m - 1) = None"
    by (simp_all add: locate_eval)
  have d': "map block_id (extract_blocks To (drop (m_end ?m) ?S7)) = [1, 2]"
    by (simp add: extract_blocks_def locate_eval)
  have g: "re_search (header_pattern From) ?F = Some ?k"
    "find_matching_brace ?F (m_end ?k - 1) = Some 11"
    by (simp_all add: locate_eval)
  have g': "map block_id (extract_blocks From (drop 11 ?F)) = [1, 2]"
    by (simp add: extract_blocks_def locate_eval)
  note at11 = block_locator_ordered [of To ?S 11 ?m 0]
  note at20 = block_locator_ordered [of To ?S 20 ?m 31]
  note atX = block_locator_ordered [of To ?X 0 ?m 0]
  note at7 = block_locator_ordered [of To ?S7 0 ?m 0]
  note atF = block_locator_ordered [of From ?F 0 ?k 11]
  have srt: "sorted_wrt (\<lambda>a b. end_pos a \<le> start b) (extract_blocks To ?S)"
    by (rule at11 [THEN conjunct1])
  have "start (hd (extract_blocks To ?S)) < end_pos (hd (extract_blocks To ?S)) \<and>
        block_at To ?S (hd (extract_blocks To ?S))"
    by (rule bspec [OF at11 [THEN conjunct2, THEN conjunct2, THEN conjunct1] hd_in_set [OF a]])
  then have first: "start (hd (extract_blocks To ?S)) < end_pos (hd (extract_blocks To ?S))"
    "block_at To ?S (hd (extract_blocks To ?S))"
    by (rule conjunct1, rule conjunct2)
  note tl3 = conjunct2 [THEN conjunct2, THEN conjunct2]
  have skip: "extract_loop To ?S 11 = extract_loop To ?S (11 + m_end ?m)"
    by (rule mp [OF at11 [THEN tl3, THEN conjunct1]]) (intro conjI b)
  have emit: "\<exists>b. extract_loop To ?S 20 = b # extract_loop To ?S 31 \<and>
      start b = 20 + m_start ?m \<and> end_pos b = 31"
    by (rule mp [OF at20 [THEN tl3, THEN conjunct2, THEN conjunct1]]) (intro conjI c)
  have none: "extract_blocks To ?X = []"
    by (rule mp [OF atX [THEN tl3, THEN tl3, THEN conjunct1] x])
  have skip0: "extract_blocks To ?S7 =
      map (shift_block (m_end ?m)) (extract_blocks To (drop (m_end ?m) ?S7))"
    by (rule mp [OF at7 [THEN tl3, THEN tl3, THEN conjunct2, THEN conjunct1]]) (intro conjI d)
  have emit0: "extract_blocks From ?F =
     \<lparr>start = m_start ?k, end_pos = 11, content = slice ?F (m_start ?k) 11,
      block_id = int_of_digits (m_group ?F ?k (fst (id_group From)) (snd (id_group From))),
      raw_header = slice ?F (m_start ?k) (m_end ?k)\<rparr>
     # map (shift_block 11) (extract_blocks From (drop 11 ?F))"
    by (rule mp [OF atF [THEN tl3, THEN tl3, THEN conjunct2, THEN conjunct2, THEN conjunct1]]) (intro conjI g)
  show ?thesis
    by (intro conjI) (rule a b c x d d' g g' skip emit none skip0 emit0 srt first)+
qed


section \<open>Subsection extractor: \<open>extract_ja_section\<close> and \<open>extract_en_section\<close>\<close>

text \<open>
  Both functions begin with the same steps (lines 110-134 and 142-166), but for the tag
  \<open>ja\<close> or \<open>en\<close>: find \<open>text = {\<close> in the block, close its brace, cut the text section
  out, find the tag's header in it and close its brace inside the section.
  \<open>find_section tag block_content\<close> returns \<open>text_start\<close>, the two offsets in the section
  and the tagged content, or \<open>None\<close> where the functions return \<open>None\<close>.
\<close>

definition find_section :: "string \<Rightarrow> buffer \<Rightarrow> (nat \<times> nat \<times> nat \<times> buffer) option" where
  "find_section tag block_content =
     (case re_search (section_pattern ''text'') block_content of
        None \<Rightarrow> None
      | Some text_match \<Rightarrow>
          (case find_matching_brace block_content (m_end text_match - 1) of
             None \<Rightarrow> None
           | Some text_end \<Rightarrow>
               (let text_start = m_start text_match;
                    text_section = slice block_content text_start text_end
                in case re_search (section_pattern tag) text_section of
                     None \<Rightarrow> None
                   | Some tag_match \<Rightarrow>
                       (case find_matching_brace text_section (m_end tag_match - 1) of
                          None \<Rightarrow> None
                        | Some tag_end \<Rightarrow>
                            Some (text_start, m_start tag_match, tag_end,
                                  slice text_section (m_start tag_match) tag_end)))))"

definition extract_ja_section :: "buffer \<Rightarrow> (nat \<times> nat \<times> buffer) option" where
  "extract_ja_section block_content =
     (case find_section ''ja'' block_content of
        None \<Rightarrow> None
      | Some (text_start, ja_start_in_section, ja_end_in_section, ja_content) \<Rightarrow>
          Some (text_start + ja_start_in_section, text_start + ja_end_in_section, ja_content))"

section \<open>Field transform\<close>

text \<open>
  \<open>re.findall(r'"(?:[^"\\]|\\.)*"', s)\<close>. After the opening quote the pattern repeats
  either one character that is neither a quote nor a backslash, or a backslash and one
  character other than a newline (\<open>.\<close> without \<open>re.DOTALL\<close>), and then wants the closing
  quote. The two alternatives start with different characters and neither starts with a
  quote, so giving back an iteration never leads to a match: the match from a given opening
  quote is found, or not, by one pass. \<open>quoted_body cs\<close> is the number of characters after
  the opening quote up to and including the closing one.
\<close>

fun quoted_body :: "buffer \<Rightarrow> nat option" where
  "quoted_body [] = None"
| "quoted_body [c] = (if c = DQUOTE then Some 1 else None)"
| "quoted_body (c # d # ds) =
     (if c = DQUOTE then Some 1
      else if c = BACKSLASH then
        (if d = NEWLINE then None else map_option (\<lambda>n. n + 2) (quoted_body ds))
      else map_option Suc (quoted_body (d # ds)))"

lemma quoted_body_le: "quoted_body cs = Some n \<Longrightarrow> 0 < n \<and> n \<le> length cs"
  by (induction cs arbitrary: n rule: quoted_body.induct) (auto split: if_splits)

function findall_quoted :: "buffer \<Rightarrow> buffer list" where
  "findall_quoted [] = []"
| "findall_quoted (c # cs) =
     (if c = DQUOTE then
        (case quoted_body cs of
           Some n \<Rightarrow> (c # take n cs) # findall_quoted (drop n cs)
         | None \<Rightarrow> findall_quoted cs)
      else findall_quoted cs)"
  by pat_completeness auto
termination
  by (relation "measure length") auto

text \<open>
  \<open>transform_name(match)\<close> for a match \<open>m\<close> of the name pattern in \<open>s\<close>: groups 1, 2 and 3
  are the items 0 to 7, 8, and 9.
\<close>

definition transform_name :: "buffer \<Rightarrow> nat \<times> nat list \<Rightarrow> buffer" where
  "transform_name s m =
     (let strings = findall_quoted (m_group s m 8 9)
      in if strings \<noteq> [] then m_group s m 0 8 @ last strings @ m_group s m 9 10
         else m_group s m 0 10)"

text \<open>
  \<open>re.sub(name_pattern, transform_name, s)\<close>: the text before the leftmost match, the
  replacement, and the same again on what follows the match.
\<close>

lemma min_len_name: "0 < min_len name_pattern"
  by (simp add: name_pattern_def ci_word_def eq_brace_def)

function sub_names :: "buffer \<Rightarrow> buffer" where
  "sub_names s =
     (case re_search name_pattern s of
        None \<Rightarrow> s
      | Some m \<Rightarrow> take (m_start m) s @ transform_name s m @ sub_names (drop (m_end m) s))"
  by pat_completeness auto
termination
proof (relation "measure length")
  show "wf (measure length)" by simp
next
  fix s :: buffer and m
  assume m: "re_search name_pattern s = Some m"
  from re_search_min_len [OF m] re_search_end_le [OF m] min_len_name
  show "(drop (m_end m) s, s) \<in> measure length" by simp
qed

declare sub_names.simps [simp del]

text \<open>\<open>re.sub(r'^en\s*=', 'ja =', s, count=1, flags=re.IGNORECASE)\<close>: only at offset 0.\<close>

definition en_tag_pattern :: "item list" where
  "en_tag_pattern = ci_word ''en'' @ [Star Space, One (Lit 61)]"

definition retag :: "buffer \<Rightarrow> buffer" where
  "retag s = (case re_match en_tag_pattern s of
                Some ns \<Rightarrow> ustr ''ja ='' @ drop (sum_list ns) s
              | None \<Rightarrow> s)"

definition extract_en_section :: "buffer \<Rightarrow> buffer option" where
  "extract_en_section block_content =
     (case find_section ''en'' block_content of
        None \<Rightarrow> None
      | Some (text_start, en_start, en_end, en_content) \<Rightarrow> Some (retag (sub_names en_content)))"


section \<open>Substitution engine: the replacement pass of \<open>process_file\<close>\<close>

text \<open>
  \<open>result_chars[start_pos:end_pos] = list(replacement)\<close> for offsets that are not negative:
  Python clamps both offsets to the length and takes \<open>end_pos\<close> as \<open>start_pos\<close> when
  it is smaller.
\<close>

definition slice_assign :: "'a list \<Rightarrow> nat \<Rightarrow> nat \<Rightarrow> 'a list \<Rightarrow> 'a list" where
  "slice_assign xs a b r = take a xs @ r @ drop (max a b) xs"

text \<open>
  A Python \<open>dict\<close> is an association list with distinct keys: \<open>AList.update\<close> replaces the
  value of a key that is there and appends a new key at the end, as assignment to a
  \<open>dict\<close> entry does, and \<open>map_of\<close> looks a key up. \<open>replacements\<close> maps a start offset
  to the end offset and the replacement.

  Lines 248-253, \<open>apply_edits\<close> in the specification: the keys in descending order, one
  slice assignment each.
\<close>

type_synonym replacements = "(nat \<times> nat \<times> buffer) list"

definition apply_edits :: "buffer \<Rightarrow> replacements \<Rightarrow> buffer" where
  "apply_edits to_content reps =
     foldl (\<lambda>result_chars start_pos.
              case map_of reps start_pos of
                Some (stop_pos, replacement) \<Rightarrow>
                  slice_assign result_chars start_pos stop_pos replacement
              | None \<Rightarrow> result_chars)
       to_content (rev (sort (map fst reps)))"

section \<open>\<open>process_file\<close>\<close>

text \<open>\<open>{b.block_id: b for b in blocks}\<close>: a later block with the same id replaces the earlier.\<close>

definition blocks_dict :: "block list \<Rightarrow> (int \<times> block) list" where
  "blocks_dict bs = foldl (\<lambda>d b. AList.update (block_id b) b d) [] bs"

text \<open>
  One round of the loop of lines 216-227, on the pair \<open>(replacements, unmatched_to)\<close>.
  \<open>if en_section:\<close> is false for \<open>None\<close> and for the empty string; \<open>if ja_pos:\<close> is
  false for \<open>None\<close> only, a tuple of three being true.
\<close>

definition match_step ::
  "(int \<times> block) list \<Rightarrow> replacements \<times> int list \<Rightarrow> int \<times> block \<Rightarrow> replacements \<times> int list"
where
  "match_step from_blocks_dict acc item =
     (case (acc, item) of ((reps, unmatched_to), (to_id, to_block)) \<Rightarrow>
        (case map_of from_blocks_dict (to_id + 1) of
           Some from_block \<Rightarrow>
             (case extract_en_section (content from_block) of
                None \<Rightarrow> (reps, unmatched_to)
              | Some en_section \<Rightarrow>
                  if en_section = [] then (reps, unmatched_to)
                  else (case extract_ja_section (content to_block) of
                          Some (ja_start, ja_end, ja_content) \<Rightarrow>
                            (AList.update (start to_block + ja_start)
                               (start to_block + ja_end, en_section) reps,
                             unmatched_to)
                        | None \<Rightarrow> (reps, unmatched_to @ [to_id])))
         | None \<Rightarrow> (reps, unmatched_to @ [to_id])))"

definition match_blocks ::
  "(int \<times> block) list \<Rightarrow> (int \<times> block) list \<Rightarrow> replacements \<times> int list" where
  "match_blocks to_blocks_dict from_blocks_dict =
     foldl (match_step from_blocks_dict) ([], []) to_blocks_dict"

text \<open>Lines 229-231.\<close>

definition unmatched_from_ids :: "(int \<times> block) list \<Rightarrow> (int \<times> block) list \<Rightarrow> int list" where
  "unmatched_from_ids to_blocks_dict from_blocks_dict =
     filter (\<lambda>from_id. map_of to_blocks_dict (from_id - 1) = None) (map fst from_blocks_dict)"

text \<open>\<open>sub in s\<close> for strings.\<close>

fun has_prefix :: "'a list \<Rightarrow> 'a list \<Rightarrow> bool" where
  "has_prefix [] s = True"
| "has_prefix (x # xs) [] = False"
| "has_prefix (x # xs) (c # cs) = (x = c \<and> has_prefix xs cs)"

fun contains :: "'a list \<Rightarrow> 'a list \<Rightarrow> bool" where
  "contains sub [] = (sub = [])"
| "contains sub (c # cs) = (has_prefix sub (c # cs) \<or> contains sub cs)"

text \<open>
  The state of an \<open>ASTProcessor\<close>. \<open>process_file\<close> is modelled from the two file contents
  on (the reads of lines 191-192 having succeeded): it returns its boolean result, the
  text written to \<open>out_path\<close> (\<open>None\<close>: nothing is written) and the new state. Nothing
  between the reads and the write raises, so the \<open>except\<close> branch belongs to the file
  operations only, which are not modelled.
\<close>

record processor =
  mismatched_files :: "(string \<times> nat \<times> nat \<times> int list) list"
  failed_files :: "(string \<times> string) list"
  successful_files :: "string list"

definition fail :: "processor \<Rightarrow> string \<Rightarrow> string \<Rightarrow> bool \<times> buffer option \<times> processor" where
  "fail st name msg = (False, None, st\<lparr>failed_files := failed_files st @ [(name, msg)]\<rparr>)"

definition process_file ::
  "processor \<Rightarrow> string \<Rightarrow> buffer \<Rightarrow> buffer \<Rightarrow> bool \<times> buffer option \<times> processor" where
  "process_file st name to_content from_content =
     (let to_blocks = extract_blocks_to to_content;
          from_blocks = extract_blocks_from from_content
      in if to_blocks = [] then fail st name ''No blocks found in TO file''
         else if from_blocks = [] then fail st name ''No blocks found in FROM file''
         else
           (let to_blocks_dict = blocks_dict to_blocks;
                from_blocks_dict = blocks_dict from_blocks;
                (reps, unmatched_to) = match_blocks to_blocks_dict from_blocks_dict;
                unmatched_from = unmatched_from_ids to_blocks_dict from_blocks_dict;
                st1 = (if unmatched_to \<noteq> [] \<or> unmatched_from \<noteq> [] then
                         st\<lparr>mismatched_files := mismatched_files st @
                              [(name, length to_blocks, length from_blocks,
                                unmatched_to @ unmatched_from)]\<rparr>
                       else st)
            in if reps = [] then fail st1 name ''No valid replacements found''
               else
                 (let result = apply_edits to_content reps
                  in if \<not> contains (ustr ''astver'') (take 200 result) \<or>
                        \<not> contains (ustr ''ast = {'') (take 300 result)
                     then fail st1 name
                            ''CRITICAL: Output structure corrupted (missing astver/ast)''
                     else (True, Some result,
                           st1\<lparr>successful_files := successful_files st1 @ [name]\<rparr>))))"


section \<open>Properties of the field transform\<close>

text \<open>
  \<open>name_header h\<close>: the pattern \<open>name\s*=\s*\{\<close> matches the whole of \<open>h\<close> (any case,
  any white space around the equals sign). \<open>no_na s\<close>: in \<open>s\<close> no \<open>n\<close> is followed by an
  \<open>a\<close> (in either case), so that no match of the name pattern starts in \<open>s\<close>.
\<close>

lemma lazy_to_brace:
  "RBRACE \<notin> set body \<Longrightarrow>
   re_match [Lazy AnyChar, One (Lit RBRACE)] (body @ RBRACE # rest) = Some [length body, 1]"
  by (induction body) auto

lemma star_match:
  "\<forall>w\<in>set ws. cls_ok k w \<Longrightarrow> \<not> cls_ok k x \<Longrightarrow> re_match p (x # t) = Some ns \<Longrightarrow>
   re_match (Star k # p) (ws @ x # t) = Some (length ws # ns)"
  by (induction ws) auto

lemma star_decompose:
  "re_match (Star k # p) s = Some ns \<Longrightarrow>
   \<exists>ws t ns'. s = ws @ t \<and> (\<forall>w\<in>set ws. cls_ok k w) \<and> re_match p t = Some ns' \<and>
              ns = length ws # ns'"
proof (induction s arbitrary: ns)
  case Nil
  then show ?case by auto
next
  case (Cons c cs)
  show ?case
  proof (cases "cls_ok k c \<and> re_match (Star k # p) cs \<noteq> None")
    case True
    then obtain n0 where n0: "re_match (Star k # p) cs = Some n0" by auto
    from Cons.IH [OF n0] obtain ws t ns' where
      d: "cs = ws @ t" "\<forall>w\<in>set ws. cls_ok k w" "re_match p t = Some ns'" "n0 = length ws # ns'"
      by blast
    from Cons.prems True n0 d(4) have "ns = length (c # ws) # ns'" by simp
    with d True have "c # cs = (c # ws) @ t \<and> (\<forall>w\<in>set (c # ws). cls_ok k w) \<and>
        re_match p t = Some ns' \<and> ns = length (c # ws) # ns'" by simp
    then show ?thesis by blast
  next
    case False
    with Cons.prems obtain ns' where "re_match p (c # cs) = Some ns'" "ns = 0 # ns'"
      by (auto split: if_splits option.splits)
    then have "c # cs = [] @ (c # cs) \<and> (\<forall>w\<in>set []. cls_ok k w) \<and>
        re_match p (c # cs) = Some ns' \<and> ns = length ([]::nat list) # ns'" by simp
    then show ?thesis by blast
  qed
qed

lemma one_decompose:
  "re_match (One k # p) s = Some ns \<Longrightarrow>
   \<exists>c t ns'. s = c # t \<and> cls_ok k c \<and> re_match p t = Some ns' \<and> ns = 1 # ns'"
  by (cases s) (auto split: if_splits)


definition name_header :: "buffer \<Rightarrow> bool" where
  "name_header h =
     (case re_match (ci_word ''name'' @ eq_brace) h of
        Some ns \<Rightarrow> sum_list ns = length h
      | None \<Rightarrow> False)"

fun no_na :: "buffer \<Rightarrow> bool" where
  "no_na (c # d # cs) = (\<not> (cls_ok (CI 110) c \<and> cls_ok (CI 97) d) \<and> no_na (d # cs))"
| "no_na cs = True"

lemma name_header_shape:
  assumes "name_header h"
  shows "\<exists>c1 c2 c3 c4 ws1 ws2.
           h = c1 # c2 # c3 # c4 # ws1 @ 61 # ws2 @ [LBRACE] \<and>
           cls_ok (CI 110) c1 \<and> cls_ok (CI 97) c2 \<and> cls_ok (CI 109) c3 \<and> cls_ok (CI 101) c4 \<and>
           (\<forall>w\<in>set ws1. is_space w) \<and> (\<forall>w\<in>set ws2. is_space w)"
proof -
  from assms obtain ns where
    m: "re_match (One (CI 110) # One (CI 97) # One (CI 109) # One (CI 101) # Star Space #
           One (Lit 61) # Star Space # [One (Lit LBRACE)]) h = Some ns"
    and full: "sum_list ns = length h"
    by (auto simp: name_header_def ci_word_def eq_brace_def split: option.splits)
  from one_decompose [OF m] obtain c1 t1 n1 where
    1: "h = c1 # t1" "cls_ok (CI 110) c1" "ns = 1 # n1" and
    m1: "re_match (One (CI 97) # One (CI 109) # One (CI 101) # Star Space #
           One (Lit 61) # Star Space # [One (Lit LBRACE)]) t1 = Some n1" by blast
  from one_decompose [OF m1] obtain c2 t2 n2 where
    2: "t1 = c2 # t2" "cls_ok (CI 97) c2" "n1 = 1 # n2" and
    m2: "re_match (One (CI 109) # One (CI 101) # Star Space #
           One (Lit 61) # Star Space # [One (Lit LBRACE)]) t2 = Some n2" by blast
  from one_decompose [OF m2] obtain c3 t3 n3 where
    3: "t2 = c3 # t3" "cls_ok (CI 109) c3" "n2 = 1 # n3" and
    m3: "re_match (One (CI 101) # Star Space #
           One (Lit 61) # Star Space # [One (Lit LBRACE)]) t3 = Some n3" by blast
  from one_decompose [OF m3] obtain c4 t4 n4 where
    4: "t3 = c4 # t4" "cls_ok (CI 101) c4" "n3 = 1 # n4" and
    m4: "re_match (Star Space # One (Lit 61) # Star Space # [One (Lit LBRACE)]) t4 = Some n4"
    by blast
  from star_decompose [OF m4] obtain ws1 t5 n5 where
    5: "t4 = ws1 @ t5" "\<forall>w\<in>set ws1. cls_ok Space w" "n4 = length ws1 # n5" and
    m5: "re_match (One (Lit 61) # Star Space # [One (Lit LBRACE)]) t5 = Some n5" by blast
  from one_decompose [OF m5] obtain c6 t6 n6 where
    6: "t5 = c6 # t6" "cls_ok (Lit 61) c6" "n5 = 1 # n6" and
    m6: "re_match (Star Space # [One (Lit LBRACE)]) t6 = Some n6" by blast
  from star_decompose [OF m6] obtain ws2 t7 n7 where
    7: "t6 = ws2 @ t7" "\<forall>w\<in>set ws2. cls_ok Space w" "n6 = length ws2 # n7" and
    m7: "re_match [One (Lit LBRACE)] t7 = Some n7" by blast
  from one_decompose [OF m7] obtain c8 t8 n8 where
    8: "t7 = c8 # t8" "cls_ok (Lit LBRACE) c8" "n7 = 1 # n8" and
    m8: "re_match [] t8 = Some n8" by blast
  from m8 have n8: "n8 = []" by simp
  from full 1 2 3 4 5 6 7 8 n8 have "t8 = []" by simp
  with 1 2 3 4 5 6 7 8 have
    "h = c1 # c2 # c3 # c4 # ws1 @ 61 # ws2 @ [LBRACE] \<and>
           cls_ok (CI 110) c1 \<and> cls_ok (CI 97) c2 \<and> cls_ok (CI 109) c3 \<and> cls_ok (CI 101) c4 \<and>
           (\<forall>w\<in>set ws1. is_space w) \<and> (\<forall>w\<in>set ws2. is_space w)"
    by simp
  then show ?thesis by blast
qed

lemma name_header_match:
  assumes "name_header h" "RBRACE \<notin> set body"
  shows "\<exists>ns. re_match name_pattern (h @ body @ RBRACE # rest) = Some (ns @ [length body, 1]) \<and>
              length ns = 8 \<and> sum_list ns = length h"
proof -
  from name_header_shape [OF assms(1)] obtain c1 c2 c3 c4 ws1 ws2 where
    h: "h = c1 # c2 # c3 # c4 # ws1 @ 61 # ws2 @ [LBRACE]" and
    c: "cls_ok (CI 110) c1" "cls_ok (CI 97) c2" "cls_ok (CI 109) c3" "cls_ok (CI 101) c4" and
    ws: "\<forall>w\<in>set ws1. cls_ok Space w" "\<forall>w\<in>set ws2. cls_ok Space w"
    by auto
  have a: "re_match [One (Lit LBRACE), Lazy AnyChar, One (Lit RBRACE)]
             (LBRACE # body @ RBRACE # rest) = Some [1, length body, 1]"
    using lazy_to_brace [OF assms(2), of rest] by simp
  have b: "re_match (Star Space # [One (Lit LBRACE), Lazy AnyChar, One (Lit RBRACE)])
             (ws2 @ LBRACE # body @ RBRACE # rest) = Some (length ws2 # [1, length body, 1])"
    by (rule star_match [OF ws(2) _ a]) (simp add: is_space_def)
  then have b': "re_match (One (Lit 61) # Star Space #
               [One (Lit LBRACE), Lazy AnyChar, One (Lit RBRACE)])
             (61 # ws2 @ LBRACE # body @ RBRACE # rest) =
             Some (1 # length ws2 # [1, length body, 1])"
    by simp
  have d: "re_match (Star Space # One (Lit 61) # Star Space #
               [One (Lit LBRACE), Lazy AnyChar, One (Lit RBRACE)])
             (ws1 @ 61 # ws2 @ LBRACE # body @ RBRACE # rest) =
             Some (length ws1 # 1 # length ws2 # [1, length body, 1])"
    by (rule star_match [OF ws(1) _ b']) (simp add: is_space_def)
  have "re_match name_pattern (h @ body @ RBRACE # rest) =
          Some ([1, 1, 1, 1, length ws1, 1, length ws2, 1] @ [length body, 1])"
    using c d by (simp add: h name_pattern_def ci_word_def eq_brace_def)
  moreover have "sum_list [1, 1, 1, 1, length ws1, 1, length ws2, 1] = length h"
    by (simp add: h)
  ultimately show ?thesis by force
qed

lemma no_na_snoc: "no_na pre \<Longrightarrow> \<not> cls_ok (CI 97) x \<Longrightarrow> no_na (pre @ [x])"
  by (induction pre rule: no_na.induct) auto

lemma no_na_no_match:
  "no_na (pre @ [x]) \<Longrightarrow> j < length pre \<Longrightarrow> re_match name_pattern (drop j (pre @ x # t)) = None"
proof (induction pre arbitrary: j)
  case Nil
  then show ?case by simp
next
  case (Cons c pre)
  show ?case
  proof (cases j)
    case 0
    with Cons.prems(1) show ?thesis
      by (cases pre) (auto simp: name_pattern_def ci_word_def)
  next
    case (Suc j')
    from Cons.prems(1) have "no_na (pre @ [x])" by (cases pre) auto
    with Cons.IH [of j'] Cons.prems(2) Suc show ?thesis by simp
  qed
qed

lemma re_search_skip:
  "\<forall>j<length pre. re_match p (drop j (pre @ s)) = None \<Longrightarrow> re_match p s = Some ns \<Longrightarrow>
   re_search p (pre @ s) = Some (length pre, ns)"
proof (induction pre)
  case Nil
  then show ?case by (cases s) auto
next
  case (Cons c pre)
  from Cons.prems(1) have 0: "re_match p (c # pre @ s) = None" by auto
  from Cons.prems(1) have "\<forall>j<length pre. re_match p (drop j (pre @ s)) = None" by auto
  from Cons.IH [OF this Cons.prems(2)] 0 show ?case by simp
qed

lemma no_na_spaces:
  "\<forall>w\<in>set ws. is_space w \<Longrightarrow> no_na zs \<Longrightarrow> no_na (ws @ zs)"
proof (induction ws)
  case Nil
  then show ?case by simp
next
  case (Cons w ws)
  then have "\<not> cls_ok (CI 110) w" by (auto simp: is_space_def)
  moreover from Cons have "no_na (ws @ zs)" by simp
  ultimately show ?case by (cases "ws @ zs") auto
qed

lemma en_tag_shape:
  assumes "re_match (section_pattern ''en'') s = Some ns"
  shows "\<exists>c1 c2 ws y t. s = c1 # c2 # ws @ 61 # y # t \<and> cls_ok (CI 101) c1 \<and>
           cls_ok (CI 110) c2 \<and> (\<forall>w\<in>set ws. is_space w) \<and> length ws + 4 \<le> sum_list ns"
proof -
  from assms have
    m: "re_match (One (CI 101) # One (CI 110) # Star Space # One (Lit 61) # Star Space #
           [One (Lit LBRACE)]) s = Some ns"
    by (simp add: section_pattern_def ci_word_def eq_brace_def)
  from one_decompose [OF m] obtain c1 t1 n1 where
    1: "s = c1 # t1" "cls_ok (CI 101) c1" "ns = 1 # n1" and
    m1: "re_match (One (CI 110) # Star Space # One (Lit 61) # Star Space #
           [One (Lit LBRACE)]) t1 = Some n1" by blast
  from one_decompose [OF m1] obtain c2 t2 n2 where
    2: "t1 = c2 # t2" "cls_ok (CI 110) c2" "n1 = 1 # n2" and
    m2: "re_match (Star Space # One (Lit 61) # Star Space # [One (Lit LBRACE)]) t2 = Some n2"
    by blast
  from star_decompose [OF m2] obtain ws t3 n3 where
    3: "t2 = ws @ t3" "\<forall>w\<in>set ws. cls_ok Space w" "n2 = length ws # n3" and
    m3: "re_match (One (Lit 61) # Star Space # [One (Lit LBRACE)]) t3 = Some n3" by blast
  from one_decompose [OF m3] obtain c4 t4 n4 where
    4: "t3 = c4 # t4" "cls_ok (Lit 61) c4" "n3 = 1 # n4" and
    m4: "re_match (Star Space # [One (Lit LBRACE)]) t4 = Some n4" by blast
  from re_match_min_len [OF m4] have n4a: "1 \<le> sum_list n4" by simp
  with re_match_sum_le [OF m4] have "1 \<le> length t4" by simp
  with n4a have n4: "1 \<le> sum_list n4" "t4 \<noteq> []" by auto
  then obtain y t where 5: "t4 = y # t" by (cases t4) auto
  from 1 2 3 4 5 n4(1) have "s = c1 # c2 # ws @ 61 # y # t \<and> cls_ok (CI 101) c1 \<and>
           cls_ok (CI 110) c2 \<and> (\<forall>w\<in>set ws. is_space w) \<and> length ws + 4 \<le> sum_list ns"
    by simp
  then show ?thesis by blast
qed

lemma sub_names_keeps_prefix:
  assumes "\<forall>j<length pre. re_match name_pattern (drop j (pre @ t)) = None"
  shows "\<exists>z. sub_names (pre @ t) = pre @ z"
proof (cases "re_search name_pattern (pre @ t)")
  case None
  then show ?thesis by (subst sub_names.simps) simp
next
  case (Some m)
  from re_search_Some [of name_pattern "pre @ t" "fst m" "snd m"] Some
  have "re_match name_pattern (drop (fst m) (pre @ t)) = Some (snd m)" by simp
  with assms have "length pre \<le> fst m" by (cases "fst m < length pre") auto
  then have "take (m_start m) (pre @ t) = pre @ take (m_start m - length pre) t"
    by (simp add: m_start_def)
  with Some show ?thesis by (subst sub_names.simps) simp
qed

lemma retag_en:
  assumes "cls_ok (CI 101) c1" "cls_ok (CI 110) c2" "\<forall>w\<in>set ws. is_space w"
  shows "retag (c1 # c2 # ws @ 61 # z) = ustr ''ja ='' @ z"
proof -
  have "re_match (Star Space # [One (Lit 61)]) (ws @ 61 # z) = Some (length ws # [1])"
    by (rule star_match) (use assms(3) in \<open>simp_all add: is_space_def\<close>)
  with assms(1,2) have "re_match en_tag_pattern (c1 # c2 # ws @ 61 # z) =
      Some [1, 1, length ws, 1]"
    by (simp add: en_tag_pattern_def ci_word_def)
  then show ?thesis by (simp add: retag_def)
qed

lemma take_length_append: "take (length xs + n) (xs @ t) = xs @ take n t"
  by simp

lemma extract_en_section_tag:
  assumes "extract_en_section c = Some r"
  shows "\<exists>z. r = ustr ''ja ='' @ z"
proof -
  from assms obtain sec gm b where
    gm: "re_search (section_pattern ''en'') sec = Some gm" and
    ge: "find_matching_brace sec (m_end gm - 1) = Some b" and
    r: "r = retag (sub_names (slice sec (m_start gm) b))"
    by (auto simp: extract_en_section_def find_section_def Let_def split: option.splits)
  from re_search_Some [of "section_pattern ''en''" sec "fst gm" "snd gm"] gm
  have mt: "re_match (section_pattern ''en'') (drop (m_start gm) sec) = Some (snd gm)"
    by (simp add: m_start_def)
  from en_tag_shape [OF mt] obtain c1 c2 ws y t where
    sh: "drop (m_start gm) sec = c1 # c2 # ws @ 61 # y # t" and
    cs: "cls_ok (CI 101) c1" "cls_ok (CI 110) c2" "\<forall>w\<in>set ws. is_space w" and
    len: "length ws + 4 \<le> sum_list (snd gm)" by blast
  from find_matching_brace_Some [OF ge] len
  have "length ws + 4 \<le> b - m_start gm" by (auto simp: m_end_def m_start_def)
  then obtain n where n: "b - m_start gm = length ws + 4 + n"
    by (metis le_Suc_ex)
  let ?pre = "c1 # c2 # ws @ [61]"
  have x: "slice sec (m_start gm) b = ?pre @ y # take n t"
  proof -
    have "slice sec (m_start gm) b = take (length ws + 4 + n) ((c1 # c2 # ws @ [61, y]) @ t)"
      by (simp add: slice_def sh n)
    also have "length ws + 4 + n = length (c1 # c2 # ws @ [61, y]) + n" by simp
    also have "take (length (c1 # c2 # ws @ [61, y]) + n) ((c1 # c2 # ws @ [61, y]) @ t) =
        (c1 # c2 # ws @ [61, y]) @ take n t"
      by (rule take_length_append)
    finally show ?thesis by simp
  qed
  from cs(1) have "\<not> cls_ok (CI 110) c1" by auto
  moreover have "no_na (c2 # ws @ [61, y])"
  proof (cases ws)
    case Nil
    then show ?thesis by simp
  next
    case (Cons w ws')
    with cs(3) have "\<not> cls_ok (CI 97) w" by (auto simp: is_space_def)
    moreover have "no_na (ws @ [61, y])" by (rule no_na_spaces [OF cs(3)]) simp
    ultimately show ?thesis using Cons by simp
  qed
  ultimately have "no_na (?pre @ [y])" by simp
  from no_na_no_match [OF this]
  have "\<forall>j<length ?pre. re_match name_pattern (drop j (?pre @ y # take n t)) = None"
    by blast
  from sub_names_keeps_prefix [OF this] obtain z where
    "sub_names (?pre @ y # take n t) = ?pre @ z" by blast
  with x r retag_en [OF cs, of z] show ?thesis by simp
qed

lemma lazy_decompose:
  "re_match [Lazy AnyChar, One (Lit RBRACE)] t = Some ns \<Longrightarrow>
   \<exists>body rest. t = body @ RBRACE # rest \<and> RBRACE \<notin> set body"
proof (induction t arbitrary: ns)
  case Nil
  then show ?case by simp
next
  case (Cons c cs)
  show ?case
  proof (cases "c = RBRACE")
    case True
    then have "c # cs = [] @ RBRACE # cs \<and> RBRACE \<notin> set []" by simp
    then show ?thesis by blast
  next
    case False
    with Cons.prems obtain ns' where "re_match [Lazy AnyChar, One (Lit RBRACE)] cs = Some ns'"
      by (auto split: option.splits)
    from Cons.IH [OF this] obtain body rest where "cs = body @ RBRACE # rest" "RBRACE \<notin> set body"
      by blast
    with False have "c # cs = (c # body) @ RBRACE # rest \<and> RBRACE \<notin> set (c # body)" by simp
    then show ?thesis by blast
  qed
qed

lemma name_header_intro:
  assumes "cls_ok (CI 110) c1" "cls_ok (CI 97) c2" "cls_ok (CI 109) c3" "cls_ok (CI 101) c4"
    "\<forall>w\<in>set ws1. is_space w" "\<forall>w\<in>set ws2. is_space w"
  shows "name_header (c1 # c2 # c3 # c4 # ws1 @ 61 # ws2 @ [LBRACE])"
proof -
  have a: "re_match [One (Lit LBRACE)] [LBRACE] = Some [1]" by simp
  have b: "re_match (Star Space # [One (Lit LBRACE)]) (ws2 @ [LBRACE]) = Some (length ws2 # [1])"
    by (rule star_match [OF _ _ a]) (use assms(6) in \<open>simp_all add: is_space_def\<close>)
  then have b': "re_match (One (Lit 61) # Star Space # [One (Lit LBRACE)])
      (61 # ws2 @ [LBRACE]) = Some (1 # length ws2 # [1])" by simp
  have d: "re_match (Star Space # One (Lit 61) # Star Space # [One (Lit LBRACE)])
      (ws1 @ 61 # ws2 @ [LBRACE]) = Some (length ws1 # 1 # length ws2 # [1])"
    by (rule star_match [OF _ _ b']) (use assms(5) in \<open>simp_all add: is_space_def\<close>)
  with assms(1-4) show ?thesis
    by (simp add: name_header_def ci_word_def eq_brace_def)
qed

lemma name_match_decompose:
  assumes "re_match name_pattern t = Some ns"
  shows "\<exists>h body rest. t = h @ body @ RBRACE # rest \<and> name_header h \<and> RBRACE \<notin> set body"
proof -
  from assms have
    m: "re_match (One (CI 110) # One (CI 97) # One (CI 109) # One (CI 101) # Star Space #
           One (Lit 61) # Star Space # One (Lit LBRACE) #
           [Lazy AnyChar, One (Lit RBRACE)]) t = Some ns"
    by (simp add: name_pattern_def ci_word_def eq_brace_def)
  from one_decompose [OF m] obtain c1 t1 n1 where
    1: "t = c1 # t1" "cls_ok (CI 110) c1" and
    m1: "re_match (One (CI 97) # One (CI 109) # One (CI 101) # Star Space #
           One (Lit 61) # Star Space # One (Lit LBRACE) #
           [Lazy AnyChar, One (Lit RBRACE)]) t1 = Some n1" by blast
  from one_decompose [OF m1] obtain c2 t2 n2 where
    2: "t1 = c2 # t2" "cls_ok (CI 97) c2" and
    m2: "re_match (One (CI 109) # One (CI 101) # Star Space #
           One (Lit 61) # Star Space # One (Lit LBRACE) #
           [Lazy AnyChar, One (Lit RBRACE)]) t2 = Some n2" by blast
  from one_decompose [OF m2] obtain c3 t3 n3 where
    3: "t2 = c3 # t3" "cls_ok (CI 109) c3" and
    m3: "re_match (One (CI 101) # Star Space #
           One (Lit 61) # Star Space # One (Lit LBRACE) #
           [Lazy AnyChar, One (Lit RBRACE)]) t3 = Some n3" by blast
  from one_decompose [OF m3] obtain c4 t4 n4 where
    4: "t3 = c4 # t4" "cls_ok (CI 101) c4" and
    m4: "re_match (Star Space # One (Lit 61) # Star Space # One (Lit LBRACE) #
           [Lazy AnyChar, One (Lit RBRACE)]) t4 = Some n4" by blast
  from star_decompose [OF m4] obtain ws1 t5 n5 where
    5: "t4 = ws1 @ t5" "\<forall>w\<in>set ws1. cls_ok Space w" and
    m5: "re_match (One (Lit 61) # Star Space # One (Lit LBRACE) #
           [Lazy AnyChar, One (Lit RBRACE)]) t5 = Some n5" by blast
  from one_decompose [OF m5] obtain c6 t6 n6 where
    6: "t5 = c6 # t6" "cls_ok (Lit 61) c6" and
    m6: "re_match (Star Space # One (Lit LBRACE) #
           [Lazy AnyChar, One (Lit RBRACE)]) t6 = Some n6" by blast
  from star_decompose [OF m6] obtain ws2 t7 n7 where
    7: "t6 = ws2 @ t7" "\<forall>w\<in>set ws2. cls_ok Space w" and
    m7: "re_match (One (Lit LBRACE) # [Lazy AnyChar, One (Lit RBRACE)]) t7 = Some n7" by blast
  from one_decompose [OF m7] obtain c8 t8 n8 where
    8: "t7 = c8 # t8" "cls_ok (Lit LBRACE) c8" and
    m8: "re_match [Lazy AnyChar, One (Lit RBRACE)] t8 = Some n8" by blast
  from lazy_decompose [OF m8] obtain body rest where
    9: "t8 = body @ RBRACE # rest" "RBRACE \<notin> set body" by blast
  let ?h = "c1 # c2 # c3 # c4 # ws1 @ 61 # ws2 @ [LBRACE]"
  have "name_header ?h"
    by (rule name_header_intro) (use 1 2 3 4 5 7 in simp_all)
  moreover have "t = ?h @ body @ RBRACE # rest"
    using 1 2 3 4 5 6 7 8 9 by simp
  ultimately show ?thesis using 9(2) by blast
qed

lemma name_field_sub_leftmost:
  assumes "\<forall>j<length pre. re_match name_pattern (drop j (pre @ h @ body @ RBRACE # rest)) = None"
    "name_header h" "RBRACE \<notin> set body"
  shows "sub_names (pre @ h @ body @ RBRACE # rest) =
     pre @ (if findall_quoted body = [] then h @ body @ [RBRACE]
            else h @ last (findall_quoted body) @ [RBRACE]) @ sub_names rest"
proof -
  let ?t = "h @ body @ RBRACE # rest"
  let ?s = "pre @ ?t"
  from name_header_match [OF assms(2,3), of rest] obtain ns where
    m: "re_match name_pattern ?t = Some (ns @ [length body, 1])" and
    ns: "length ns = 8" "sum_list ns = length h" by blast
  from re_search_skip [OF assms(1) m]
  have srch: "re_search name_pattern ?s = Some (length pre, ns @ [length body, 1])" .
  let ?m = "(length pre, ns @ [length body, 1])"
  have g2: "m_group ?s ?m 8 9 = body"
    using ns by (simp add: m_group_def slice_def)
  have g1: "m_group ?s ?m 0 8 = h"
    using ns by (simp add: m_group_def slice_def)
  have g3: "m_group ?s ?m 9 10 = [RBRACE]"
    using ns by (simp add: m_group_def slice_def)
  have g0: "m_group ?s ?m 0 10 = h @ body @ [RBRACE]"
    using ns by (simp add: m_group_def slice_def)
  have rest: "drop (m_end ?m) ?s = rest" "take (m_start ?m) ?s = pre"
    using ns by (simp_all add: m_end_def m_start_def)
  have "sub_names ?s = pre @ transform_name ?s ?m @ sub_names rest"
    by (subst sub_names.simps) (simp only: srch option.case rest)
  also have "transform_name ?s ?m =
     (if findall_quoted body = [] then h @ body @ [RBRACE]
      else h @ last (findall_quoted body) @ [RBRACE])"
    by (simp only: transform_name_def Let_def g0 g1 g2 g3 if_not_P if_P split: if_split)
      simp
  finally show ?thesis by simp
qed

lemma name_field_shape:
  assumes "re_search name_pattern s = Some m"
  shows "\<exists>h body rest. s = take (m_start m) s @ h @ body @ RBRACE # rest \<and> name_header h \<and>
           RBRACE \<notin> set body \<and>
           (\<forall>j<m_start m. re_match name_pattern (drop j s) = None)"
proof -
  from re_search_Some [of name_pattern s "fst m" "snd m"] assms have
    k: "m_start m \<le> length s" and
    mt: "re_match name_pattern (drop (m_start m) s) = Some (snd m)" and
    none: "\<forall>j<m_start m. re_match name_pattern (drop j s) = None"
    by (simp_all add: m_start_def)
  from name_match_decompose [OF mt] obtain h body rest where
    "drop (m_start m) s = h @ body @ RBRACE # rest" "name_header h" "RBRACE \<notin> set body"
    by blast
  with none append_take_drop_id [of "m_start m" s, symmetric] show ?thesis
    by metis
qed

lemma sub_names_no_field: "re_search name_pattern s = None \<Longrightarrow> sub_names s = s"
  by (subst sub_names.simps) simp

lemma list_all_upt: "list_all P [0..<n] \<longleftrightarrow> (\<forall>j<n. P j)"
  by (auto simp: list_all_iff)

lemmas transform_eval =
  sub_names.simps transform_name_def name_pattern_def ci_word_def eq_brace_def ustr_def
  quoted_def is_space_def m_group_def m_start_def m_end_def slice_def

text \<open>
  C6 (as stated, refuted). The claim has \<open>name = { "OnlyOne" }\<close> come out unchanged. The
  replacement is built from group 1 (\<open>name = {\<close>), the last quoted string and group 3
  (\<open>}\<close>) alone, so the white space inside the braces is dropped: the result is
  \<open>name = {"OnlyOne"}\<close>, which is not the input.
\<close>

theorem name_singleton_counterexample:
  "sub_names (ustr ''name = { '' @ quoted ''OnlyOne'' @ ustr '' }'') =
     ustr ''name = {'' @ quoted ''OnlyOne'' @ ustr ''}'' \<and>
   sub_names (ustr ''name = { '' @ quoted ''OnlyOne'' @ ustr '' }'') \<noteq>
     ustr ''name = { '' @ quoted ''OnlyOne'' @ ustr '' }''"
  by (simp add: transform_eval)

text \<open>
  C6 (amended). The transform works on the matches of the name pattern
  \<open>(name\s*=\s*\{)(.*?)(\})\<close>, from left to right. A field is therefore a header \<open>h\<close>
  matched by \<open>name\s*=\s*\{\<close> (in any letter case), the text \<open>body\<close> up to the first
  closing brace after the header (also when that brace stands inside a quoted string), and
  that brace. For the leftmost field of a text, that is, when no match of the name pattern
  starts in the text \<open>pre\<close> before it:
  \<^item> if \<open>body\<close> holds at least one complete quoted string, the field becomes the header,
    the last such string and the closing brace, with nothing else between the braces (the
    other strings, the commas and the white space are dropped);
  \<^item> if \<open>body\<close> holds no complete quoted string, the field is left as it is;
  \<^item> the text before the field is kept, and the transform goes on in the same way with the
    text after the field.
  Every text in which the name pattern matches has this shape, with \<open>pre\<close> the text before
  the leftmost match; a text in which it does not match is left as it is. So
  \<open>name = { "\<dots>", "Haruto" }\<close>, the first string being the two characters U+9065 U+6597,
  becomes \<open>name = {"Haruto"}\<close>; \<open>name = { "OnlyOne" }\<close> becomes \<open>name = {"OnlyOne"}\<close>;
  \<open>name = { 12, 13 }\<close> stays; \<open>name={"x","a}b"}\<close>, whose second string holds a closing
  brace, becomes \<open>name={"x"}b"}\<close>; and in \<open>en = { "Hanako", name = {"A", "B"} }\<close> the
  field becomes \<open>name = {"B"}\<close> while the rest stays.
\<close>

theorem name_field_last_string:
  "((\<forall>j<length pre. re_match name_pattern (drop j (pre @ h @ body @ RBRACE # rest)) = None) \<and>
    name_header h \<and> RBRACE \<notin> set body \<longrightarrow>
      sub_names (pre @ h @ body @ RBRACE # rest) =
        pre @ (if findall_quoted body = [] then h @ body @ [RBRACE]
               else h @ last (findall_quoted body) @ [RBRACE]) @ sub_names rest) \<and>
   (re_search name_pattern s = Some m \<longrightarrow>
      (\<exists>h body rest. s = take (m_start m) s @ h @ body @ RBRACE # rest \<and> name_header h \<and>
           RBRACE \<notin> set body \<and>
           (\<forall>j<m_start m. re_match name_pattern (drop j s) = None))) \<and>
   (re_search name_pattern s = None \<longrightarrow> sub_names s = s) \<and>
   sub_names (ustr ''name = { '' @ [DQUOTE, 36965, 26007, DQUOTE] @ ustr '', '' @
              quoted ''Haruto'' @ ustr '' }'') =
     ustr ''name = {'' @ quoted ''Haruto'' @ ustr ''}'' \<and>
   sub_names (ustr ''name = { '' @ quoted ''OnlyOne'' @ ustr '' }'') =
     ustr ''name = {'' @ quoted ''OnlyOne'' @ ustr ''}'' \<and>
   sub_names (ustr ''name = { 12, 13 }'') = ustr ''name = { 12, 13 }'' \<and>
   sub_names (ustr ''name={'' @ quoted ''x'' @ ustr '','' @ quoted ''a}b'' @ ustr ''}'') =
     ustr ''name={'' @ quoted ''x'' @ ustr ''}b'' @ [DQUOTE, RBRACE] \<and>
   sub_names (ustr ''en = { '' @ quoted ''Hanako'' @ ustr '', name = {'' @ quoted ''A'' @
              ustr '', '' @ quoted ''B'' @ ustr ''} }'') =
     ustr ''en = { '' @ quoted ''Hanako'' @ ustr '', name = {'' @ quoted ''B'' @ ustr ''} }''"
proof (intro conjI impI)
  assume "(\<forall>j<length pre. re_match name_pattern (drop j (pre @ h @ body @ RBRACE # rest)) = None) \<and>
    name_header h \<and> RBRACE \<notin> set body"
  then show "sub_names (pre @ h @ body @ RBRACE # rest) =
        pre @ (if findall_quoted body = [] then h @ body @ [RBRACE]
               else h @ last (findall_quoted body) @ [RBRACE]) @ sub_names rest"
    using name_field_sub_leftmost [of pre h body rest] by blast
next
  assume "re_search name_pattern s = Some m"
  then show "\<exists>h body rest. s = take (m_start m) s @ h @ body @ RBRACE # rest \<and> name_header h \<and>
           RBRACE \<notin> set body \<and>
           (\<forall>j<m_start m. re_match name_pattern (drop j s) = None)"
    by (rule name_field_shape)
next
  assume "re_search name_pattern s = None"
  then show "sub_names s = s" by (rule sub_names_no_field)
next
  show "sub_names (ustr ''name = { '' @ [DQUOTE, 36965, 26007, DQUOTE] @ ustr '', '' @
              quoted ''Haruto'' @ ustr '' }'') =
     ustr ''name = {'' @ quoted ''Haruto'' @ ustr ''}''"
    by (simp add: transform_eval)
next
  show "sub_names (ustr ''name = { '' @ quoted ''OnlyOne'' @ ustr '' }'') =
     ustr ''name = {'' @ quoted ''OnlyOne'' @ ustr ''}''"
    by (simp add: transform_eval)
next
  show "sub_names (ustr ''name = { 12, 13 }'') = ustr ''name = { 12, 13 }''"
    by (simp add: transform_eval)
next
  show "sub_names (ustr ''name={'' @ quoted ''x'' @ ustr '','' @ quoted ''a}b'' @ ustr ''}'') =
     ustr ''name={'' @ quoted ''x'' @ ustr ''}b'' @ [DQUOTE, RBRACE]"
    by (simp add: transform_eval)
next
  show "sub_names (ustr ''en = { '' @ quoted ''Hanako'' @ ustr '', name = {'' @ quoted ''A'' @
              ustr '', '' @ quoted ''B'' @ ustr ''} }'') =
     ustr ''en = { '' @ quoted ''Hanako'' @ ustr '', name = {'' @ quoted ''B'' @ ustr ''} }''"
    by (simp add: transform_eval)
qed

theorem name_field_last_string_witness:
  "list_all (\<lambda>j. re_match name_pattern (drop j ((ustr ''en = { '' @ quoted ''Hanako'' @
      ustr '', '') @ ustr ''Name  ={'' @ (ustr '' '' @ quoted ''A'' @ ustr '', '' @ quoted ''B'' @
      ustr '' '') @ RBRACE # ustr '' }'')) = None) [0..<length (ustr ''en = { '' @
      quoted ''Hanako'' @ ustr '', '')] \<and>
   name_header (ustr ''Name  ={'') \<and> RBRACE \<notin> set (ustr '' '' @ quoted ''A'' @
       ustr '', '' @ quoted ''B'' @ ustr '' '') \<and>
   sub_names ((ustr ''en = { '' @ quoted ''Hanako'' @ ustr '', '') @ ustr ''Name  ={'' @
       (ustr '' '' @ quoted ''A'' @ ustr '', '' @ quoted ''B'' @ ustr '' '') @
       RBRACE # ustr '' }'') =
     ustr ''en = { '' @ quoted ''Hanako'' @ ustr '', Name  ={'' @ quoted ''B'' @ ustr ''} }'' \<and>
   re_search name_pattern ((ustr ''en = { '' @ quoted ''Hanako'' @ ustr '', '') @
       ustr ''Name  ={'' @ (ustr '' '' @ quoted ''A'' @ ustr '', '' @ quoted ''B'' @ ustr '' '') @
       RBRACE # ustr '' }'') = Some (17, [1, 1, 1, 1, 2, 1, 0, 1, 10, 1]) \<and>
   (\<exists>h body rest.
       ((ustr ''en = { '' @ quoted ''Hanako'' @ ustr '', '') @ ustr ''Name  ={'' @ (ustr '' '' @
           quoted ''A'' @ ustr '', '' @ quoted ''B'' @ ustr '' '') @ RBRACE # ustr '' }'') = take
           (m_start (17, [1, 1, 1, 1, 2, 1, 0, 1, 10, 1])) ((ustr ''en = { '' @
           quoted ''Hanako'' @ ustr '', '') @ ustr ''Name  ={'' @ (ustr '' '' @ quoted ''A'' @
           ustr '', '' @ quoted ''B'' @ ustr '' '') @ RBRACE # ustr '' }'') @ h @ body @
         RBRACE # rest \<and>
       name_header h \<and> RBRACE \<notin> set body \<and>
       (\<forall>j<m_start (17, [1, 1, 1, 1, 2, 1, 0, 1, 10, 1]).
           re_match name_pattern (drop j ((ustr ''en = { '' @ quoted ''Hanako'' @ ustr '', '') @
               ustr ''Name  ={'' @ (ustr '' '' @ quoted ''A'' @ ustr '', '' @ quoted ''B'' @
               ustr '' '') @ RBRACE # ustr '' }'')) = None)) \<and>
   re_search name_pattern (ustr ''name = { 12'') = None \<and>
   sub_names (ustr ''name = { 12'') = ustr ''name = { 12''"
proof -
  let ?pre = "ustr ''en = { '' @ quoted ''Hanako'' @ ustr '', ''"
  let ?h = "ustr ''Name  ={''"
  let ?body = "ustr '' '' @ quoted ''A'' @ ustr '', '' @ quoted ''B'' @ ustr '' ''"
  let ?rest = "ustr '' }''"
  let ?s = "(ustr ''en = { '' @ quoted ''Hanako'' @ ustr '', '') @ ustr ''Name  ={'' @
      (ustr '' '' @ quoted ''A'' @ ustr '', '' @ quoted ''B'' @ ustr '' '') @
      RBRACE # ustr '' }''"
  let ?m = "(17, [1, 1, 1, 1, 2, 1, 0, 1, 10, 1]) :: nat \<times> nat list"
  let ?x = "ustr ''name = { 12''"
  have la: "list_all (\<lambda>j. re_match name_pattern (drop j ?s) = None) [0..<length ?pre]"
    by (simp add: transform_eval)
  have hd: "name_header ?h"
    by (simp add: name_header_def transform_eval)
  have bd: "RBRACE \<notin> set ?body"
    by (simp add: transform_eval)
  have srch: "re_search name_pattern ?s = Some ?m"
    by (simp add: transform_eval)
  have nonex: "re_search name_pattern ?x = None"
    by (simp add: transform_eval)
  note inst = name_field_last_string [of ?pre ?h ?body ?rest ?s ?m]
  note instx = name_field_last_string [of ?pre ?h ?body ?rest ?x ?m]
  have "sub_names ?s =
      ?pre @ (if findall_quoted ?body = [] then ?h @ ?body @ [RBRACE]
              else ?h @ last (findall_quoted ?body) @ [RBRACE]) @ sub_names ?rest"
    by (rule mp [OF inst [THEN conjunct1]]) (intro conjI la [unfolded list_all_upt] hd bd)
  also have "\<dots> =
      ustr ''en = { '' @ quoted ''Hanako'' @ ustr '', Name  ={'' @ quoted ''B'' @ ustr ''} }''"
    by (simp add: transform_eval)
  finally have res: "sub_names ?s =
      ustr ''en = { '' @ quoted ''Hanako'' @ ustr '', Name  ={'' @ quoted ''B'' @ ustr ''} }''" .
  have shape: "\<exists>h body rest. ?s = take (m_start ?m) ?s @ h @ body @ RBRACE # rest \<and>
       name_header h \<and> RBRACE \<notin> set body \<and>
       (\<forall>j<m_start ?m. re_match name_pattern (drop j ?s) = None)"
    by (rule mp [OF inst [THEN conjunct2, THEN conjunct1] srch])
  have keep: "sub_names ?x = ?x"
    by (rule mp [OF instx [THEN conjunct2, THEN conjunct2, THEN conjunct1] nonex])
  show ?thesis
    by (intro conjI) (rule la hd bd res srch shape nonex keep)+
qed

section \<open>Properties of the correlation loop\<close>

text \<open>
  What one round of the loop does with a target entry, read off \<open>match_step\<close>:
  \<open>edit_of\<close> is the replacement it enters, if any, and \<open>is_unmatched\<close> says whether it
  appends the id to \<open>unmatched_to\<close>.
\<close>

definition edit_of :: "(int \<times> block) list \<Rightarrow> int \<times> block \<Rightarrow> (nat \<times> nat \<times> buffer) option" where
  "edit_of fd item =
     (case map_of fd (fst item + 1) of
        None \<Rightarrow> None
      | Some fb \<Rightarrow>
          (case extract_en_section (content fb) of
             None \<Rightarrow> None
           | Some en \<Rightarrow>
               if en = [] then None
               else (case extract_ja_section (content (snd item)) of
                       None \<Rightarrow> None
                     | Some (a, b, c) \<Rightarrow> Some (start (snd item) + a, start (snd item) + b, en))))"

definition is_unmatched :: "(int \<times> block) list \<Rightarrow> int \<times> block \<Rightarrow> bool" where
  "is_unmatched fd item =
     (case map_of fd (fst item + 1) of
        None \<Rightarrow> True
      | Some fb \<Rightarrow>
          (case extract_en_section (content fb) of
             None \<Rightarrow> False
           | Some en \<Rightarrow> en \<noteq> [] \<and> extract_ja_section (content (snd item)) = None))"

definition enter :: "replacements \<Rightarrow> (nat \<times> nat \<times> buffer) option \<Rightarrow> replacements" where
  "enter reps e = (case e of None \<Rightarrow> reps | Some (k, v) \<Rightarrow> AList.update k v reps)"

lemma match_step_alt:
  "match_step fd (reps, um) item =
     (enter reps (edit_of fd item), if is_unmatched fd item then um @ [fst item] else um)"
  by (cases item)
    (auto simp: match_step_def edit_of_def is_unmatched_def enter_def split: option.splits)

lemma match_fold:
  "foldl (match_step fd) (reps, um) td =
     (foldl (\<lambda>r item. enter r (edit_of fd item)) reps td,
      um @ map fst (filter (is_unmatched fd) td))"
  by (induction td arbitrary: reps um) (simp_all add: match_step_alt)

lemma match_blocks_alt:
  "match_blocks td fd =
     (foldl (\<lambda>r item. enter r (edit_of fd item)) [] td, map fst (filter (is_unmatched fd) td))"
  by (simp add: match_blocks_def match_fold)

lemma enter_fold_no_edit:
  "\<forall>item\<in>set td. edit_of fd item = None \<Longrightarrow>
   foldl (\<lambda>r item. enter r (edit_of fd item)) reps td = reps"
  by (induction td arbitrary: reps) (simp_all add: enter_def)

lemma enter_nonempty: "enter reps (Some e) \<noteq> []"
  by (cases e; cases reps) (auto simp: enter_def)

lemma enter_fold_nonempty:
  "reps \<noteq> [] \<Longrightarrow> foldl (\<lambda>r item. enter r (edit_of fd item)) reps td \<noteq> []"
proof (induction td arbitrary: reps)
  case Nil
  then show ?case by simp
next
  case (Cons item td)
  have "enter reps (edit_of fd item) \<noteq> []"
    using Cons.prems enter_nonempty by (cases "edit_of fd item") (auto simp: enter_def)
  from Cons.IH [OF this] show ?case by simp
qed

lemma enter_fold_empty_iff:
  "foldl (\<lambda>r item. enter r (edit_of fd item)) [] td = [] \<longleftrightarrow>
     (\<forall>item\<in>set td. edit_of fd item = None)"
proof (induction td)
  case Nil
  then show ?case by simp
next
  case (Cons item td)
  show ?case
  proof (cases "edit_of fd item")
    case None
    with Cons show ?thesis by (simp add: enter_def)
  next
    case (Some e)
    with enter_fold_nonempty [where reps = "enter [] (Some e)" and fd = fd and td = td,
        OF enter_nonempty]
    show ?thesis by simp
  qed
qed

lemma enter_fold_filter:
  "foldl (\<lambda>r item. enter r (edit_of fd item)) reps (filter (\<lambda>item. fst item \<noteq> t) td) =
   foldl (\<lambda>r item. enter r (edit_of fd item)) reps td"
  if "\<forall>item\<in>set td. fst item = t \<longrightarrow> edit_of fd item = None"
  using that by (induction td arbitrary: reps) (auto simp: enter_def)

text \<open>
  C10. In one round of the loop of lines 216-227, for the target entry \<open>(t, tb)\<close>: when
  the source block \<open>t + 1\<close> exists and \<open>extract_en_section\<close> returns \<open>None\<close> for it, the
  round changes neither \<open>replacements\<close> nor \<open>unmatched_to\<close>; when the source block
  exists and its \<open>en\<close> section is extracted but \<open>extract_ja_section\<close> returns \<open>None\<close> for
  the target block, the round appends \<open>t\<close> to \<open>unmatched_to\<close> and leaves
  \<open>replacements\<close> alone. For the whole loop over a dictionary \<open>td\<close>: in
  the first case \<open>t\<close> is not in the final \<open>unmatched_to\<close> and the final \<open>replacements\<close>
  are those of the loop over \<open>td\<close> without \<open>t\<close>; in the second case \<open>t\<close> is in the final
  \<open>unmatched_to\<close>.
\<close>

theorem en_missing_silently_skipped:
  "(map_of fd (t + 1) = Some fb \<and> extract_en_section (content fb) = None \<longrightarrow>
      match_step fd (reps, um) (t, tb) = (reps, um)) \<and>
   (map_of fd (t + 1) = Some fb \<and> extract_en_section (content fb) = Some en \<and> en \<noteq> [] \<and>
    extract_ja_section (content tb) = None \<longrightarrow>
      match_step fd (reps, um) (t, tb) = (reps, um @ [t])) \<and>
   ((t, tb) \<in> set td \<and>
    map_of fd (t + 1) = Some fb \<and> extract_en_section (content fb) = None \<longrightarrow>
      t \<notin> set (snd (match_blocks td fd)) \<and>
      fst (match_blocks td fd) = fst (match_blocks (filter (\<lambda>item. fst item \<noteq> t) td) fd)) \<and>
   ((t, tb) \<in> set td \<and>
    map_of fd (t + 1) = Some fb \<and> extract_en_section (content fb) = Some en \<and> en \<noteq> [] \<and>
    extract_ja_section (content tb) = None \<longrightarrow>
      t \<in> set (snd (match_blocks td fd)))"
proof (intro conjI impI)
  assume "map_of fd (t + 1) = Some fb \<and> extract_en_section (content fb) = None"
  then show "match_step fd (reps, um) (t, tb) = (reps, um)"
    by (simp add: match_step_def)
next
  assume "map_of fd (t + 1) = Some fb \<and> extract_en_section (content fb) = Some en \<and> en \<noteq> [] \<and>
    extract_ja_section (content tb) = None"
  then show "match_step fd (reps, um) (t, tb) = (reps, um @ [t])"
    by (simp add: match_step_def)
next
  assume a: "(t, tb) \<in> set td \<and>
    map_of fd (t + 1) = Some fb \<and> extract_en_section (content fb) = None"
  then have none: "\<forall>item\<in>set td. fst item = t \<longrightarrow> \<not> is_unmatched fd item \<and> edit_of fd item = None"
    by (auto simp: is_unmatched_def edit_of_def)
  then show "t \<notin> set (snd (match_blocks td fd))"
    by (auto simp: match_blocks_alt)
  from none show "fst (match_blocks td fd) =
      fst (match_blocks (filter (\<lambda>item. fst item \<noteq> t) td) fd)"
    by (simp add: match_blocks_alt enter_fold_filter)
next
  assume a: "(t, tb) \<in> set td \<and>
    map_of fd (t + 1) = Some fb \<and> extract_en_section (content fb) = Some en \<and> en \<noteq> [] \<and>
    extract_ja_section (content tb) = None"
  then have "is_unmatched fd (t, tb)" by (simp add: is_unmatched_def)
  with a show "t \<in> set (snd (match_blocks td fd))"
    by (force simp: match_blocks_alt)
qed


theorem en_missing_silently_skipped_witness:
  "map_of
     [(1::int, \<lparr>start = 0, end_pos = 1, content = ustr ''x'', block_id = 1, raw_header = []\<rparr>)]
     (0 + 1) =
     Some \<lparr>start = 0, end_pos = 1, content = ustr ''x'', block_id = 1, raw_header = []\<rparr> \<and>
   extract_en_section (ustr ''x'') = None \<and>
   match_step
     [(1, \<lparr>start = 0, end_pos = 1, content = ustr ''x'', block_id = 1, raw_header = []\<rparr>)]
     ([], [])
     (0, \<lparr>start = 0, end_pos = 1, content = ustr ''y'', block_id = 0, raw_header = []\<rparr>) =
     ([], []) \<and>
   0 \<notin> set (snd (match_blocks
     [(0, \<lparr>start = 0, end_pos = 1, content = ustr ''y'', block_id = 0, raw_header = []\<rparr>)]
     [(1, \<lparr>start = 0, end_pos = 1, content = ustr ''x'', block_id = 1, raw_header = []\<rparr>)])) \<and>
   extract_en_section (ustr ''text={en={}}'') = Some (ustr ''ja ={}'') \<and>
   extract_ja_section (ustr ''y'') = None \<and>
   match_step
     [(1, \<lparr>start = 0, end_pos = 12, content = ustr ''text={en={}}'', block_id = 1,
          raw_header = []\<rparr>)]
     ([], [])
     (0, \<lparr>start = 0, end_pos = 1, content = ustr ''y'', block_id = 0, raw_header = []\<rparr>) =
     ([], [0]) \<and>
   0 \<in> set (snd (match_blocks
     [(0, \<lparr>start = 0, end_pos = 1, content = ustr ''y'', block_id = 0, raw_header = []\<rparr>)]
     [(1, \<lparr>start = 0, end_pos = 12, content = ustr ''text={en={}}'', block_id = 1,
          raw_header = []\<rparr>)]))"
proof -
  let ?tb = "\<lparr>start = 0, end_pos = 1, content = ustr ''y'', block_id = 0, raw_header = []\<rparr>"
  let ?fb1 = "\<lparr>start = 0, end_pos = 1, content = ustr ''x'', block_id = 1, raw_header = []\<rparr>"
  let ?fb2 = "\<lparr>start = 0, end_pos = 12, content = ustr ''text={en={}}'', block_id = 1,
          raw_header = []\<rparr>"
  have e1: "extract_en_section (ustr ''x'') = None"
    by (simp add: extract_en_section_def find_section_def section_pattern_def ci_word_def
        eq_brace_def ustr_def)
  have e2: "extract_en_section (ustr ''text={en={}}'') = Some (ustr ''ja ={}'')"
    by (simp add: extract_en_section_def find_section_def section_pattern_def
        find_matching_brace_def brace_loop.simps retag_def en_tag_pattern_def transform_eval)
  have j: "extract_ja_section (ustr ''y'') = None"
    by (simp add: extract_ja_section_def find_section_def section_pattern_def ci_word_def
        eq_brace_def ustr_def)
  have ne: "ustr ''ja ={}'' \<noteq> []" by (simp add: ustr_def)
  from e1 e2 j ne
    en_missing_silently_skipped [where fd = "[(1, ?fb1)]" and t = 0 and fb = ?fb1 and tb = ?tb
      and td = "[(0, ?tb)]" and reps = "[]" and um = "[]" and en = "[]"]
    en_missing_silently_skipped [where fd = "[(1, ?fb2)]" and t = 0 and fb = ?fb2 and tb = ?tb
      and td = "[(0, ?tb)]" and reps = "[]" and um = "[]" and en = "ustr ''ja ={}''"]
  show ?thesis by simp
qed

section \<open>Rejected files\<close>

lemma process_file_no_replacements:
  assumes "extract_blocks_to tc \<noteq> []" "extract_blocks_from fc \<noteq> []"
    and "fst (match_blocks (blocks_dict (extract_blocks_to tc))
                (blocks_dict (extract_blocks_from fc))) = []"
  shows "fst (process_file st name tc fc) = False"
    "fst (snd (process_file st name tc fc)) = None"
    "failed_files (snd (snd (process_file st name tc fc))) =
        failed_files st @ [(name, ''No valid replacements found'')]"
    "successful_files (snd (snd (process_file st name tc fc))) = successful_files st"
proof -
  obtain reps um where m: "match_blocks (blocks_dict (extract_blocks_to tc))
                (blocks_dict (extract_blocks_from fc)) = (reps, um)"
    by (cases "match_blocks (blocks_dict (extract_blocks_to tc))
                (blocks_dict (extract_blocks_from fc))")
  with assms(3) have "reps = []" by simp
  with assms(1,2) m show "fst (process_file st name tc fc) = False"
    "fst (snd (process_file st name tc fc)) = None"
    "failed_files (snd (snd (process_file st name tc fc))) =
        failed_files st @ [(name, ''No valid replacements found'')]"
    "successful_files (snd (snd (process_file st name tc fc))) = successful_files st"
    by (simp_all add: process_file_def Let_def fail_def)
qed

text \<open>
  C8. When both files have blocks and the loop of lines 216-227 leaves \<open>replacements\<close>
  empty, \<open>process_file\<close> returns \<open>False\<close>, writes nothing, appends
  \<open>(name, "No valid replacements found")\<close> to \<open>failed_files\<close> and does not add the file
  to \<open>successful_files\<close>. And \<open>replacements\<close> is empty exactly when every target entry
  lacks a source block with the next id, or that block yields no \<open>en\<close> section, or the
  target block has no \<open>ja\<close> section.
\<close>

theorem no_replacements_rejected:
  "(extract_blocks_to tc \<noteq> [] \<and> extract_blocks_from fc \<noteq> [] \<and>
    fst (match_blocks (blocks_dict (extract_blocks_to tc))
           (blocks_dict (extract_blocks_from fc))) = [] \<longrightarrow>
      fst (process_file st name tc fc) = False \<and>
      fst (snd (process_file st name tc fc)) = None \<and>
      failed_files (snd (snd (process_file st name tc fc))) =
        failed_files st @ [(name, ''No valid replacements found'')] \<and>
      successful_files (snd (snd (process_file st name tc fc))) = successful_files st) \<and>
   (fst (match_blocks td fd) = [] \<longleftrightarrow>
      (\<forall>(t, tb)\<in>set td.
         map_of fd (t + 1) = None \<or>
         (\<exists>fb. map_of fd (t + 1) = Some fb \<and>
               (extract_en_section (content fb) = None \<or>
                extract_en_section (content fb) = Some [] \<or>
                extract_ja_section (content tb) = None))))"
proof (intro conjI impI)
  assume a: "extract_blocks_to tc \<noteq> [] \<and> extract_blocks_from fc \<noteq> [] \<and>
    fst (match_blocks (blocks_dict (extract_blocks_to tc))
           (blocks_dict (extract_blocks_from fc))) = []"
  then show "fst (process_file st name tc fc) = False"
    "fst (snd (process_file st name tc fc)) = None"
    "failed_files (snd (snd (process_file st name tc fc))) =
        failed_files st @ [(name, ''No valid replacements found'')]"
    "successful_files (snd (snd (process_file st name tc fc))) = successful_files st"
    using process_file_no_replacements [of tc fc st name] by blast+
next
  have "edit_of fd item = None \<longleftrightarrow>
         map_of fd (fst item + 1) = None \<or>
         (\<exists>fb. map_of fd (fst item + 1) = Some fb \<and>
               (extract_en_section (content fb) = None \<or>
                extract_en_section (content fb) = Some [] \<or>
                extract_ja_section (content (snd item)) = None))" for item
    by (auto simp: edit_of_def split: option.splits)
  then show "fst (match_blocks td fd) = [] \<longleftrightarrow>
      (\<forall>(t, tb)\<in>set td.
         map_of fd (t + 1) = None \<or>
         (\<exists>fb. map_of fd (t + 1) = Some fb \<and>
               (extract_en_section (content fb) = None \<or>
                extract_en_section (content fb) = Some [] \<or>
                extract_ja_section (content tb) = None)))"
    by (simp add: match_blocks_alt enter_fold_empty_iff split_beta)
qed


lemmas section_eval =
  extract_ja_section_def extract_en_section_def find_section_def section_pattern_def
  retag_def en_tag_pattern_def sub_names.simps transform_name_def name_pattern_def

lemmas match_eval =
  blocks_dict_def match_blocks_def match_step_def unmatched_from_ids_def

theorem no_replacements_rejected_witness:
  "extract_blocks_to (ustr ''block_0={}'') \<noteq> [] \<and>
   extract_blocks_from (91 # quoted ''1_5'' @ ustr '']={}'') \<noteq> [] \<and>
   fst (match_blocks (blocks_dict (extract_blocks_to (ustr ''block_0={}'')))
          (blocks_dict (extract_blocks_from (91 # quoted ''1_5'' @ ustr '']={}'')))) = [] \<and>
   fst (process_file \<lparr>mismatched_files = [], failed_files = [], successful_files = []\<rparr>
          ''a.ast'' (ustr ''block_0={}'') (91 # quoted ''1_5'' @ ustr '']={}'')) = False \<and>
   fst (snd (process_file \<lparr>mismatched_files = [], failed_files = [], successful_files = []\<rparr>
          ''a.ast'' (ustr ''block_0={}'') (91 # quoted ''1_5'' @ ustr '']={}''))) = None \<and>
   failed_files (snd (snd (process_file
          \<lparr>mismatched_files = [], failed_files = [], successful_files = []\<rparr>
          ''a.ast'' (ustr ''block_0={}'') (91 # quoted ''1_5'' @ ustr '']={}'')))) =
     [(''a.ast'', ''No valid replacements found'')]"
proof -
  let ?tc = "ustr ''block_0={}''"
  let ?fc = "91 # quoted ''1_5'' @ ustr '']={}''"
  have t: "extract_blocks_to ?tc \<noteq> []"
    by (simp add: locate_eval)
  have f: "extract_blocks_from ?fc \<noteq> []"
    by (simp add: locate_eval)
  have m: "fst (match_blocks (blocks_dict (extract_blocks_to ?tc))
          (blocks_dict (extract_blocks_from ?fc))) = []"
    by (simp add: locate_eval match_eval)
  from t f m
    no_replacements_rejected [of ?tc ?fc
      "\<lparr>mismatched_files = [], failed_files = [], successful_files = []\<rparr>" "''a.ast''"]
  show ?thesis by simp
qed

text \<open>\<open>contains\<close> is the substring test.\<close>

lemma has_prefix_iff: "has_prefix sub s \<longleftrightarrow> (\<exists>post. s = sub @ post)"
  by (induction sub s rule: has_prefix.induct) auto

lemma contains_iff: "contains sub s \<longleftrightarrow> (\<exists>pre post. s = pre @ sub @ post)"
proof (induction s)
  case Nil
  then show ?case by auto
next
  case (Cons c cs)
  show ?case
  proof
    assume "contains sub (c # cs)"
    then consider "has_prefix sub (c # cs)" | "contains sub cs" by auto
    then show "\<exists>pre post. c # cs = pre @ sub @ post"
    proof cases
      case 1
      then obtain post where "c # cs = [] @ sub @ post" by (auto simp: has_prefix_iff)
      then show ?thesis by blast
    next
      case 2
      with Cons.IH obtain pre post where "cs = pre @ sub @ post" by blast
      then have "c # cs = (c # pre) @ sub @ post" by simp
      then show ?thesis by blast
    qed
  next
    assume "\<exists>pre post. c # cs = pre @ sub @ post"
    then obtain pre post where eq: "c # cs = pre @ sub @ post" by blast
    show "contains sub (c # cs)"
    proof (cases pre)
      case Nil
      with eq have "has_prefix sub (c # cs)" by (auto simp: has_prefix_iff)
      then show ?thesis by simp
    next
      case (Cons p ps)
      with eq have "cs = ps @ sub @ post" by simp
      with Cons.IH have "contains sub cs" by blast
      then show ?thesis by simp
    qed
  qed
qed

text \<open>
  C9. When both files have blocks and \<open>replacements\<close> is not empty, the edits are applied;
  if then the first 200 characters of the result do not contain \<open>astver\<close>, or its first
  300 characters do not contain \<open>ast = {\<close>, \<open>process_file\<close> returns \<open>False\<close>, writes
  nothing, appends \<open>(name, "CRITICAL: Output structure corrupted (missing astver/ast)")\<close>
  to \<open>failed_files\<close> and does not add the file to \<open>successful_files\<close>.
\<close>

theorem integrity_check_rejects:
  "extract_blocks_to tc \<noteq> [] \<and> extract_blocks_from fc \<noteq> [] \<and>
   reps = fst (match_blocks (blocks_dict (extract_blocks_to tc))
                 (blocks_dict (extract_blocks_from fc))) \<and>
   reps \<noteq> [] \<and>
   (\<not> contains (ustr ''astver'') (take 200 (apply_edits tc reps)) \<or>
    \<not> contains (ustr ''ast = {'') (take 300 (apply_edits tc reps))) \<longrightarrow>
     fst (process_file st name tc fc) = False \<and>
     fst (snd (process_file st name tc fc)) = None \<and>
     failed_files (snd (snd (process_file st name tc fc))) =
       failed_files st @
       [(name, ''CRITICAL: Output structure corrupted (missing astver/ast)'')] \<and>
     successful_files (snd (snd (process_file st name tc fc))) = successful_files st"
proof
  assume a: "extract_blocks_to tc \<noteq> [] \<and> extract_blocks_from fc \<noteq> [] \<and>
   reps = fst (match_blocks (blocks_dict (extract_blocks_to tc))
                 (blocks_dict (extract_blocks_from fc))) \<and>
   reps \<noteq> [] \<and>
   (\<not> contains (ustr ''astver'') (take 200 (apply_edits tc reps)) \<or>
    \<not> contains (ustr ''ast = {'') (take 300 (apply_edits tc reps)))"
  obtain um where m: "match_blocks (blocks_dict (extract_blocks_to tc))
                (blocks_dict (extract_blocks_from fc)) = (reps, um)"
    using a by (cases "match_blocks (blocks_dict (extract_blocks_to tc))
                (blocks_dict (extract_blocks_from fc))") auto
  from a have bad: "\<not> contains (ustr ''astver'') (take 200 (apply_edits tc reps)) \<or>
    \<not> contains (ustr ''ast = {'') (take 300 (apply_edits tc reps))" by blast
  from a have pre: "extract_blocks_to tc \<noteq> []" "extract_blocks_from fc \<noteq> []" "reps \<noteq> []"
    by blast+
  have "process_file st name tc fc =
     fail (if um \<noteq> [] \<or> unmatched_from_ids (blocks_dict (extract_blocks_to tc))
                           (blocks_dict (extract_blocks_from fc)) \<noteq> [] then
             st\<lparr>mismatched_files := mismatched_files st @
                  [(name, length (extract_blocks_to tc), length (extract_blocks_from fc),
                    um @ unmatched_from_ids (blocks_dict (extract_blocks_to tc))
                           (blocks_dict (extract_blocks_from fc)))]\<rparr>
           else st) name ''CRITICAL: Output structure corrupted (missing astver/ast)''"
    using pre m bad by (simp add: process_file_def Let_def del: contains.simps)
  then show "fst (process_file st name tc fc) = False \<and>
     fst (snd (process_file st name tc fc)) = None \<and>
     failed_files (snd (snd (process_file st name tc fc))) =
       failed_files st @
       [(name, ''CRITICAL: Output structure corrupted (missing astver/ast)'')] \<and>
     successful_files (snd (snd (process_file st name tc fc))) = successful_files st"
    by (simp add: fail_def)
qed

theorem integrity_check_rejects_witness:
  "extract_blocks_to (ustr ''block_0={text={ja={}}}'') \<noteq> [] \<and>
   extract_blocks_from (91 # quoted ''1_1'' @ ustr '']={text={en={x}}}'') \<noteq> [] \<and>
   fst (match_blocks (blocks_dict (extract_blocks_to (ustr ''block_0={text={ja={}}}'')))
          (blocks_dict (extract_blocks_from (91 # quoted ''1_1'' @ ustr '']={text={en={x}}}''))))
     = [(15, 20, ustr ''ja ={x}'')] \<and>
   apply_edits (ustr ''block_0={text={ja={}}}'') [(15, 20, ustr ''ja ={x}'')] =
     ustr ''block_0={text={ja ={x}}}'' \<and>
   \<not> contains (ustr ''astver'') (take 200 (ustr ''block_0={text={ja ={x}}}'')) \<and>
   fst (process_file \<lparr>mismatched_files = [], failed_files = [], successful_files = []\<rparr>
          ''a.ast'' (ustr ''block_0={text={ja={}}}'')
          (91 # quoted ''1_1'' @ ustr '']={text={en={x}}}'')) = False \<and>
   fst (snd (process_file \<lparr>mismatched_files = [], failed_files = [], successful_files = []\<rparr>
          ''a.ast'' (ustr ''block_0={text={ja={}}}'')
          (91 # quoted ''1_1'' @ ustr '']={text={en={x}}}''))) = None \<and>
   failed_files (snd (snd (process_file
          \<lparr>mismatched_files = [], failed_files = [], successful_files = []\<rparr>
          ''a.ast'' (ustr ''block_0={text={ja={}}}'')
          (91 # quoted ''1_1'' @ ustr '']={text={en={x}}}'')))) =
     [(''a.ast'', ''CRITICAL: Output structure corrupted (missing astver/ast)'')]"
proof -
  let ?tc = "ustr ''block_0={text={ja={}}}''"
  let ?fc = "91 # quoted ''1_1'' @ ustr '']={text={en={x}}}''"
  let ?reps = "[(15, 20, ustr ''ja ={x}'')] :: replacements"
  have t: "extract_blocks_to ?tc \<noteq> []"
    by (simp add: locate_eval)
  have f: "extract_blocks_from ?fc \<noteq> []"
    by (simp add: locate_eval)
  have m: "fst (match_blocks (blocks_dict (extract_blocks_to ?tc))
          (blocks_dict (extract_blocks_from ?fc))) = ?reps"
    by (simp add: locate_eval match_eval section_eval)
  have r: "apply_edits ?tc ?reps = ustr ''block_0={text={ja ={x}}}''"
    by (simp add: apply_edits_def slice_assign_def ustr_def)
  have c: "\<not> contains (ustr ''astver'') (take 200 (ustr ''block_0={text={ja ={x}}}''))"
    by (simp add: ustr_def)
  from t f m r c
    integrity_check_rejects [of ?tc ?fc ?reps
      "\<lparr>mismatched_files = [], failed_files = [], successful_files = []\<rparr>" "''a.ast''"]
  show ?thesis by simp
qed


section \<open>Properties of the substitution engine\<close>

text \<open>
  Direct reconstruction: for edits in ascending order, the result is the buffer up to the
  first edit, the first replacement, the buffer between the first and the second edit, and
  so on. \<open>reconstruct s pos es\<close> is the part of it from offset \<open>pos\<close> of \<open>s\<close> on.
  \<open>non_overlapping lo es\<close>: the edits are spans \<open>[a, b)\<close> with \<open>a \<le> b\<close>, the first starts
  at or after \<open>lo\<close>, and each starts at or after the end of the one before.
\<close>

fun reconstruct :: "buffer \<Rightarrow> nat \<Rightarrow> replacements \<Rightarrow> buffer" where
  "reconstruct s pos [] = drop pos s"
| "reconstruct s pos ((a, b, r) # es) = slice s pos a @ r @ reconstruct s b es"

fun non_overlapping :: "nat \<Rightarrow> replacements \<Rightarrow> bool" where
  "non_overlapping lo [] = True"
| "non_overlapping lo ((a, b, r) # es) = (lo \<le> a \<and> a \<le> b \<and> non_overlapping b es)"

lemma reconstruct_out_of_range:
  "length s < pos \<Longrightarrow> non_overlapping pos es \<Longrightarrow> \<forall>(a, b, r)\<in>set es. a \<le> length s \<Longrightarrow>
   es = []"
  by (cases es) auto

lemma apply_descending:
  "non_overlapping lo es \<Longrightarrow> \<forall>(a, b, r)\<in>set es. a \<le> length s \<Longrightarrow>
   foldr (\<lambda>(a, b, r) acc. slice_assign acc a b r) es s = take lo s @ reconstruct s lo es"
proof (induction es arbitrary: lo)
  case Nil
  then show ?case by simp
next
  case (Cons e es)
  obtain a b r where e: "e = (a, b, r)" by (cases e)
  from Cons.prems e have ord: "lo \<le> a" "a \<le> b" "non_overlapping b es" "a \<le> length s"
    and rest: "\<forall>(a, b, r)\<in>set es. a \<le> length s"
    by auto
  let ?R = "reconstruct s b es"
  from Cons.IH [OF ord(3) rest]
  have IH: "foldr (\<lambda>(a, b, r) acc. slice_assign acc a b r) es s = take b s @ ?R" .
  have front: "take a (take b s @ ?R) = take a s"
    using ord by (simp add: min_def)
  have tail_eq: "drop (max a b) (take b s @ ?R) = ?R"
  proof (cases "b \<le> length s")
    case True
    with ord show ?thesis by (simp add: max_def)
  next
    case False
    then have "length s < b" by simp
    from reconstruct_out_of_range [OF this ord(3) rest] have "es = []" .
    with False ord show ?thesis by (simp add: max_def)
  qed
  have "take lo s @ slice s lo a = take a s"
    using ord(1) take_add [of lo "a - lo" s] by (simp add: slice_def)
  with IH front tail_eq e show ?case
    by (simp add: slice_assign_def)
qed

lemma map_insort_key: "map f (insort_key f x ys) = insort (f x) (map f ys)"
  by (induction ys) auto

lemma map_sort_key: "map f (sort_key f xs) = sort (map f xs)"
  by (induction xs) (simp_all add: map_insort_key)

lemma apply_edits_sorted:
  assumes "distinct (map fst reps)"
  shows "apply_edits s reps =
         foldr (\<lambda>(a, b, r) acc. slice_assign acc a b r) (sort_key fst reps) s"
proof -
  let ?f = "\<lambda>result_chars start_pos.
              case map_of reps start_pos of
                Some (stop_pos, replacement) \<Rightarrow>
                  slice_assign result_chars start_pos stop_pos replacement
              | None \<Rightarrow> result_chars"
  have "apply_edits s reps = foldr (\<lambda>k acc. ?f acc k) (sort (map fst reps)) s"
    by (simp add: apply_edits_def foldr_conv_foldl)
  also have "\<dots> = foldr ((\<lambda>k acc. ?f acc k) \<circ> fst) (sort_key fst reps) s"
    by (simp only: map_sort_key [symmetric] foldr_map)
  also have "\<dots> = foldr (\<lambda>(a, b, r) acc. slice_assign acc a b r) (sort_key fst reps) s"
  proof (rule foldr_cong [OF refl refl])
    fix e acc
    assume "e \<in> set (sort_key fst reps)"
    then have "e \<in> set reps" by simp
    with assms have "map_of reps (fst e) = Some (snd e)" by (cases e) simp
    then show "((\<lambda>k acc. ?f acc k) \<circ> fst) e acc =
               (case e of (a, b, r) \<Rightarrow> \<lambda>acc. slice_assign acc a b r) acc"
      by (cases e) auto
  qed
  finally show ?thesis .
qed

lemma apply_edits_direct:
  assumes "distinct (map fst reps)" "non_overlapping 0 (sort_key fst reps)"
    and "\<forall>(a, b, r)\<in>set reps. a \<le> length s"
  shows "apply_edits s reps = reconstruct s 0 (sort_key fst reps)"
proof -
  from assms(3) have "\<forall>(a, b, r)\<in>set (sort_key fst reps). a \<le> length s" by simp
  from apply_descending [OF assms(2) this] apply_edits_sorted [OF assms(1)]
  show ?thesis by simp
qed

text \<open>
  C1. \<open>replacements\<close> is a dictionary keyed by start offset, so its keys are distinct and
  \<open>sort_key fst reps\<close> lists the edits in ascending order of start. For every buffer and
  every such set of edits that do not overlap and start inside the buffer, the pass of
  lines 248-253, which applies them in descending order of start, gives the direct
  reconstruction, whatever the lengths of the replacements. In particular, on any buffer
  of 30 characters, with the edits \<open>[10,15)\<close> to a string of 10 characters and \<open>[20,22)\<close>
  to a string of one character, in either order of entry, the result is the first 10
  characters, the first replacement, the characters 15 to 19, the second replacement and the
  characters from 22 on: 34 characters, with the lower replacement intact at offsets 10 to
  19.
\<close>

theorem apply_edits_reconstruct:
  "(distinct (map fst reps) \<and> non_overlapping 0 (sort_key fst reps) \<and>
    (\<forall>(a, b, r)\<in>set reps. a \<le> length s) \<longrightarrow>
      apply_edits s reps = reconstruct s 0 (sort_key fst reps)) \<and>
   (length s = 30 \<and> length r1 = 10 \<and> length r2 = 1 \<longrightarrow>
      apply_edits s [(10, 15, r1), (20, 22, r2)] =
        take 10 s @ r1 @ slice s 15 20 @ r2 @ drop 22 s \<and>
      apply_edits s [(20, 22, r2), (10, 15, r1)] =
        take 10 s @ r1 @ slice s 15 20 @ r2 @ drop 22 s \<and>
      length (apply_edits s [(10, 15, r1), (20, 22, r2)]) = 34 \<and>
      slice (apply_edits s [(10, 15, r1), (20, 22, r2)]) 10 20 = r1)"
proof (intro conjI impI)
  assume "distinct (map fst reps) \<and> non_overlapping 0 (sort_key fst reps) \<and>
    (\<forall>(a, b, r)\<in>set reps. a \<le> length s)"
  then show "apply_edits s reps = reconstruct s 0 (sort_key fst reps)"
    using apply_edits_direct [of reps s] by blast
next
  assume len: "length s = 30 \<and> length r1 = 10 \<and> length r2 = 1"
  have "apply_edits s [(10, 15, r1), (20, 22, r2)] =
        reconstruct s 0 (sort_key fst [(10, 15, r1), (20, 22, r2)])"
    using len by (intro apply_edits_direct) simp_all
  then show one: "apply_edits s [(10, 15, r1), (20, 22, r2)] =
        take 10 s @ r1 @ slice s 15 20 @ r2 @ drop 22 s"
    by (simp add: slice_def)
  have "apply_edits s [(20, 22, r2), (10, 15, r1)] =
        reconstruct s 0 (sort_key fst [(20, 22, r2), (10, 15, r1)])"
    using len by (intro apply_edits_direct) simp_all
  then show "apply_edits s [(20, 22, r2), (10, 15, r1)] =
        take 10 s @ r1 @ slice s 15 20 @ r2 @ drop 22 s"
    by (simp add: slice_def)
  from one len show "length (apply_edits s [(10, 15, r1), (20, 22, r2)]) = 34"
    by (simp add: slice_def)
  from one len show "slice (apply_edits s [(10, 15, r1), (20, 22, r2)]) 10 20 = r1"
    by (simp add: slice_def)
qed

theorem apply_edits_reconstruct_witness:
  "distinct (map fst [(20::nat, 22::nat, ustr ''Y''), (10, 15, ustr ''XXXXXXXXXX'')]) \<and>
   non_overlapping 0 (sort_key fst [(20, 22, ustr ''Y''), (10, 15, ustr ''XXXXXXXXXX'')]) \<and>
   length (ustr ''abcdefghijklmnopqrstuvwxyz0123'') = 30 \<and>
   length (ustr ''XXXXXXXXXX'') = 10 \<and> length (ustr ''Y'') = 1 \<and>
   apply_edits (ustr ''abcdefghijklmnopqrstuvwxyz0123'')
     [(20, 22, ustr ''Y''), (10, 15, ustr ''XXXXXXXXXX'')] =
     reconstruct (ustr ''abcdefghijklmnopqrstuvwxyz0123'') 0
       (sort_key fst [(20, 22, ustr ''Y''), (10, 15, ustr ''XXXXXXXXXX'')]) \<and>
   apply_edits (ustr ''abcdefghijklmnopqrstuvwxyz0123'')
     [(10, 15, ustr ''XXXXXXXXXX''), (20, 22, ustr ''Y'')] =
     ustr ''abcdefghijXXXXXXXXXXpqrstYwxyz0123'' \<and>
   length (apply_edits (ustr ''abcdefghijklmnopqrstuvwxyz0123'')
     [(10, 15, ustr ''XXXXXXXXXX''), (20, 22, ustr ''Y'')]) = 34"
  using apply_edits_reconstruct
    [of "[(20, 22, ustr ''Y''), (10, 15, ustr ''XXXXXXXXXX'')]"
      "ustr ''abcdefghijklmnopqrstuvwxyz0123''" "ustr ''XXXXXXXXXX''" "ustr ''Y''"]
  by (simp add: ustr_def slice_def)


section \<open>The frame of \<open>process_file\<close>\<close>

subsection \<open>Dictionaries\<close>

lemma update_set_subset: "set (AList.update k v al) \<subseteq> insert (k, v) (set al)"
  by (induction al) auto

lemma update_set_same: "(k, v) \<in> set (AList.update k v al)"
  by (induction al) auto

lemma update_set_other: "(k, v) \<in> set al \<Longrightarrow> k \<noteq> k' \<Longrightarrow> (k, v) \<in> set (AList.update k' v' al)"
  by (induction al) auto

lemma blocks_dict_fold:
  "\<forall>(k, b)\<in>set d. b \<in> B \<and> block_id b = k \<Longrightarrow> distinct (map fst d) \<Longrightarrow> set bs \<subseteq> B \<Longrightarrow>
   (\<forall>(k, b)\<in>set (foldl (\<lambda>d b. AList.update (block_id b) b d) d bs). b \<in> B \<and> block_id b = k) \<and>
   distinct (map fst (foldl (\<lambda>d b. AList.update (block_id b) b d) d bs)) \<and>
   fst ` set (foldl (\<lambda>d b. AList.update (block_id b) b d) d bs) = fst ` set d \<union> block_id ` set bs"
proof (induction bs arbitrary: d)
  case Nil
  then show ?case by simp
next
  case (Cons b bs)
  let ?d = "AList.update (block_id b) b d"
  have 1: "\<forall>(k, b)\<in>set ?d. b \<in> B \<and> block_id b = k"
    using Cons.prems(1,3) update_set_subset [of "block_id b" b d] by auto
  have 2: "distinct (map fst ?d)"
    using Cons.prems(2) by (rule distinct_update)
  have 3: "set bs \<subseteq> B" using Cons.prems(3) by simp
  have 4: "fst ` set ?d = {block_id b} \<union> fst ` set d" by (rule dom_update)
  from Cons.IH [OF 1 2 3] 4 show ?case by auto
qed

lemma blocks_dict_props:
  "(k, b) \<in> set (blocks_dict bs) \<Longrightarrow> b \<in> set bs \<and> block_id b = k"
  "distinct (map fst (blocks_dict bs))"
  "fst ` set (blocks_dict bs) = block_id ` set bs"
  using blocks_dict_fold [of "[]" "set bs" bs] by (auto simp: blocks_dict_def)

lemma blocks_dict_lookup:
  "map_of (blocks_dict bs) k = Some b \<Longrightarrow> b \<in> set bs \<and> block_id b = k"
  using blocks_dict_props(1) [of k b bs] by (auto dest: map_of_SomeD)

subsection \<open>The entries of \<open>replacements\<close>\<close>

lemma enter_fold_invariant:
  "\<forall>e\<in>set reps. P e \<Longrightarrow> distinct (map fst reps) \<Longrightarrow>
   \<forall>item\<in>set td. \<forall>e. edit_of fd item = Some e \<longrightarrow> P e \<Longrightarrow>
   (\<forall>e\<in>set (foldl (\<lambda>r item. enter r (edit_of fd item)) reps td). P e) \<and>
   distinct (map fst (foldl (\<lambda>r item. enter r (edit_of fd item)) reps td))"
proof (induction td arbitrary: reps)
  case Nil
  then show ?case by simp
next
  case (Cons item td)
  let ?r = "enter reps (edit_of fd item)"
  have 1: "\<forall>e\<in>set ?r. P e"
  proof (cases "edit_of fd item")
    case None
    with Cons.prems(1) show ?thesis by (simp add: enter_def)
  next
    case (Some e)
    with Cons.prems(3) have "P e" by (meson list.set_intros(1))
    moreover have "set (enter reps (Some e)) \<subseteq> insert e (set reps)"
      using update_set_subset [of "fst e" "snd e" reps] by (cases e) (simp add: enter_def)
    ultimately show ?thesis unfolding Some using Cons.prems(1) by blast
  qed
  have 2: "distinct (map fst ?r)"
    using Cons.prems(2) by (cases "edit_of fd item") (auto simp: enter_def distinct_update)
  from Cons.IH [OF 1 2] Cons.prems(3) show ?case by simp
qed

lemma enter_fold_member:
  assumes "\<forall>e'. (e' \<in> set reps \<or> (\<exists>item\<in>set td. edit_of fd item = Some e')) \<longrightarrow>
             fst e' = fst e \<longrightarrow> e' = e"
    and "e \<in> set reps \<or> (\<exists>item\<in>set td. edit_of fd item = Some e)"
  shows "e \<in> set (foldl (\<lambda>r item. enter r (edit_of fd item)) reps td)"
  using assms
proof (induction td arbitrary: reps)
  case Nil
  then show ?case by simp
next
  case (Cons item td)
  let ?r = "enter reps (edit_of fd item)"
  have sub: "e' \<in> set ?r \<Longrightarrow> e' \<in> set reps \<or> edit_of fd item = Some e'" for e'
    using update_set_subset [of "fst (the (edit_of fd item))" "snd (the (edit_of fd item))" reps]
    by (cases "edit_of fd item") (auto simp: enter_def)
  have uniq: "\<forall>e'. (e' \<in> set ?r \<or> (\<exists>item\<in>set td. edit_of fd item = Some e')) \<longrightarrow>
             fst e' = fst e \<longrightarrow> e' = e"
  proof (intro allI impI)
    fix e'
    assume h: "e' \<in> set ?r \<or> (\<exists>item\<in>set td. edit_of fd item = Some e')"
      and k: "fst e' = fst e"
    from h sub [of e']
    have "e' \<in> set reps \<or> (\<exists>i\<in>set (item # td). edit_of fd i = Some e')"
      by (meson list.set_intros)
    with Cons.prems(1) k show "e' = e" by blast
  qed
  have mem: "e \<in> set ?r \<or> (\<exists>item\<in>set td. edit_of fd item = Some e)"
  proof (cases "\<exists>item\<in>set td. edit_of fd item = Some e")
    case True
    then show ?thesis by simp
  next
    case False
    with Cons.prems(2) have here: "e \<in> set reps \<or> edit_of fd item = Some e" by auto
    have "e \<in> set ?r"
    proof (cases "edit_of fd item")
      case None
      with here show ?thesis by (simp add: enter_def)
    next
      case (Some e')
      show ?thesis
      proof (cases "fst e' = fst e")
        case True
        with Cons.prems(1) Some have "e' = e" by (meson list.set_intros(1))
        with Some update_set_same [of "fst e" "snd e" reps] show ?thesis
          by (cases e) (simp add: enter_def)
      next
        case False
        with here Some have "e \<in> set reps" by auto
        with False Some update_set_other [of "fst e" "snd e" reps "fst e'" "snd e'"]
        show ?thesis by (cases e; cases e') (auto simp: enter_def)
      qed
    qed
    then show ?thesis by simp
  qed
  from Cons.IH [OF uniq mem] show ?case by simp
qed

subsection \<open>Spans\<close>

lemma slice_length: "b \<le> length xs \<Longrightarrow> length (slice xs a b) = b - a"
  by (simp add: slice_def)

lemma slice_slice:
  "b \<le> e - s \<Longrightarrow> slice (slice xs s e) a b = slice xs (s + a) (s + b)"
  by (simp add: slice_def drop_take min_def add.commute)

lemma min_len_append: "min_len (p @ q) = min_len p + min_len q"
proof (induction p)
  case Nil
  then show ?case by simp
next
  case (Cons i p)
  then show ?case by (cases i) simp_all
qed

lemma min_len_section: "0 < min_len (section_pattern w)"
  by (simp add: section_pattern_def eq_brace_def min_len_append)


lemma find_section_span:
  assumes "find_section tag c = Some (ts, a, b, x)"
  shows "a < b \<and> ts + b \<le> length c \<and> x = slice c (ts + a) (ts + b)"
proof -
  from assms obtain tm te gm where
    tm: "re_search (section_pattern ''text'') c = Some tm" and
    te: "find_matching_brace c (m_end tm - 1) = Some te" and
    ts: "ts = m_start tm" and
    gm: "re_search (section_pattern tag) (slice c ts te) = Some gm" and
    ge: "find_matching_brace (slice c ts te) (m_end gm - 1) = Some b" and
    a: "a = m_start gm" and x: "x = slice (slice c ts te) a b"
    by (auto simp: find_section_def Let_def split: option.splits)
  from find_matching_brace_Some [OF te] have te_le: "m_end tm - 1 < te" "te \<le> length c"
    by simp_all
  from re_search_min_len [OF tm] min_len_section [of "''text''"] ts te_le(1)
  have ts_lt: "ts < te" by simp
  from te_le(2) have len: "length (slice c ts te) = te - ts" by (rule slice_length)
  from find_matching_brace_Some [OF ge] len have b: "m_end gm - 1 < b" "b \<le> te - ts"
    by simp_all
  from re_search_min_len [OF gm] min_len_section [of tag] a b(1) have "a < b" by simp
  moreover from b(2) ts_lt te_le(2) have "ts + b \<le> length c" by simp
  moreover from x slice_slice [OF b(2)] have "x = slice c (ts + a) (ts + b)" by simp
  ultimately show ?thesis by simp
qed

lemma extract_ja_section_span:
  "extract_ja_section c = Some (ja, jb, jc) \<Longrightarrow> ja < jb \<and> jb \<le> length c \<and> jc = slice c ja jb"
  by (auto simp: extract_ja_section_def split: option.splits dest: find_section_span)

lemma sorted_wrt_pair:
  "sorted_wrt R xs \<Longrightarrow> x \<in> set xs \<Longrightarrow> y \<in> set xs \<Longrightarrow> x = y \<or> R x y \<or> R y x"
  by (induction xs) auto

text \<open>
  \<open>ja_edit tc fc (a, b, r)\<close>: the span \<open>[a, b)\<close> of the target buffer is the \<open>ja\<close>
  subsection that \<open>extract_ja_section\<close> locates in a target block, it lies inside that
  block, and \<open>r\<close> is what \<open>extract_en_section\<close> returns for a source block whose id is the
  target block's id plus one; \<open>r\<close> begins with the tag \<open>ja =\<close>.
\<close>

definition ja_edit :: "buffer \<Rightarrow> buffer \<Rightarrow> nat \<times> nat \<times> buffer \<Rightarrow> bool" where
  "ja_edit tc fc e =
     (case e of (a, b, r) \<Rightarrow>
        \<exists>tb\<in>set (extract_blocks_to tc). \<exists>fb\<in>set (extract_blocks_from fc).
          block_id fb = block_id tb + 1 \<and>
          start tb \<le> a \<and> a < b \<and> b \<le> end_pos tb \<and> end_pos tb \<le> length tc \<and>
          extract_ja_section (content tb) = Some (a - start tb, b - start tb, slice tc a b) \<and>
          extract_en_section (content fb) = Some r \<and> has_prefix (ustr ''ja ='') r)"

text \<open>
  \<open>correlated_edits tc fc\<close>: the edits that the entries of the target dictionary give
  rise to.
\<close>

definition correlated_edits :: "buffer \<Rightarrow> buffer \<Rightarrow> (nat \<times> nat \<times> buffer) set" where
  "correlated_edits tc fc =
     {e. \<exists>item\<in>set (blocks_dict (extract_blocks_to tc)).
           edit_of (blocks_dict (extract_blocks_from fc)) item = Some e}"

lemma edit_of_ja_edit:
  assumes item: "item \<in> set (blocks_dict (extract_blocks_to tc))"
    and e: "edit_of (blocks_dict (extract_blocks_from fc)) item = Some e"
  shows "ja_edit tc fc e"
proof -
  obtain t tb where it: "item = (t, tb)" by (cases item)
  obtain a b r where abr: "e = (a, b, r)" by (cases e)
  from item it blocks_dict_props(1) have tb: "tb \<in> set (extract_blocks_to tc)" "block_id tb = t"
    by blast+
  from e it abr obtain fb ja jb jc where
    fb: "map_of (blocks_dict (extract_blocks_from fc)) (t + 1) = Some fb" and
    en: "extract_en_section (content fb) = Some r" and
    ja: "extract_ja_section (content tb) = Some (ja, jb, jc)" and
    ab: "a = start tb + ja" "b = start tb + jb"
    by (auto simp: edit_of_def split: option.splits if_splits)
  from blocks_dict_lookup [OF fb] tb(2)
  have fb': "fb \<in> set (extract_blocks_from fc)" "block_id fb = block_id tb + 1" by simp_all
  from tb(1) have "tb \<in> set (extract_loop To tc 0)" by (simp add: extract_blocks_to_def)
  from extract_loop_block_at [OF this]
  have blk: "content tb = slice tc (start tb) (end_pos tb)" "end_pos tb \<le> length tc"
    by (simp_all add: block_at_def)
  from blk have len: "length (content tb) = end_pos tb - start tb" by (simp add: slice_length)
  from extract_ja_section_span [OF ja] len
  have span: "ja < jb" "jb \<le> end_pos tb - start tb" "jc = slice (content tb) ja jb" by simp_all
  from span(3) blk(1) slice_slice [OF span(2)] ab
  have jc: "jc = slice tc a b" by simp
  from span(1,2) ab have "start tb \<le> a" "a < b" "b \<le> end_pos tb" by simp_all
  moreover from ja jc ab
  have "extract_ja_section (content tb) = Some (a - start tb, b - start tb, slice tc a b)"
    by simp
  moreover from extract_en_section_tag [OF en] have "has_prefix (ustr ''ja ='') r"
    by (auto simp: has_prefix_iff)
  ultimately have "\<exists>tb\<in>set (extract_blocks_to tc). \<exists>fb\<in>set (extract_blocks_from fc).
          block_id fb = block_id tb + 1 \<and>
          start tb \<le> a \<and> a < b \<and> b \<le> end_pos tb \<and> end_pos tb \<le> length tc \<and>
          extract_ja_section (content tb) = Some (a - start tb, b - start tb, slice tc a b) \<and>
          extract_en_section (content fb) = Some r \<and> has_prefix (ustr ''ja ='') r"
    using tb(1) fb' en blk(2) by blast
  with abr show ?thesis by (simp add: ja_edit_def)
qed

lemma ja_edit_disjoint:
  assumes "ja_edit tc fc e1" "ja_edit tc fc e2" "fst e1 < fst e2"
  shows "fst (snd e1) \<le> fst e2"
proof -
  obtain a1 b1 r1 where e1: "e1 = (a1, b1, r1)" by (cases e1)
  obtain a2 b2 r2 where e2: "e2 = (a2, b2, r2)" by (cases e2)
  from assms(1) e1 obtain tb1 where
    1: "tb1 \<in> set (extract_blocks_to tc)" "start tb1 \<le> a1" "a1 < b1" "b1 \<le> end_pos tb1"
      "extract_ja_section (content tb1) = Some (a1 - start tb1, b1 - start tb1, slice tc a1 b1)"
    by (auto simp: ja_edit_def)
  from assms(2) e2 obtain tb2 where
    2: "tb2 \<in> set (extract_blocks_to tc)" "start tb2 \<le> a2" "a2 < b2" "b2 \<le> end_pos tb2"
      "extract_ja_section (content tb2) = Some (a2 - start tb2, b2 - start tb2, slice tc a2 b2)"
    by (auto simp: ja_edit_def)
  have "sorted_wrt (\<lambda>a b. end_pos a \<le> start b) (extract_blocks_to tc)"
    using extract_blocks_sorted(1) [of To tc] by (simp add: extract_blocks_def)
  from sorted_wrt_pair [OF this 1(1) 2(1)]
  consider "tb1 = tb2" | "end_pos tb1 \<le> start tb2" | "end_pos tb2 \<le> start tb1" by blast
  then show ?thesis
  proof cases
    case 1
    with \<open>extract_ja_section (content tb1) = _\<close> \<open>extract_ja_section (content tb2) = _\<close>
    have "a1 - start tb1 = a2 - start tb2" by simp
    with 1 \<open>start tb1 \<le> a1\<close> \<open>start tb2 \<le> a2\<close> assms(3) e1 e2 show ?thesis by simp
  next
    case 2
    with \<open>b1 \<le> end_pos tb1\<close> \<open>start tb2 \<le> a2\<close> e1 e2 show ?thesis by simp
  next
    case 3
    with \<open>start tb1 \<le> a1\<close> \<open>a2 < b2\<close> \<open>b2 \<le> end_pos tb2\<close> assms(3) e1 e2 show ?thesis
      by simp
  qed
qed

lemma non_overlapping_sorted:
  "sorted (map fst es) \<Longrightarrow> distinct (map fst es) \<Longrightarrow>
   \<forall>e\<in>set es. lo \<le> fst e \<and> fst e \<le> fst (snd e) \<Longrightarrow>
   \<forall>e1\<in>set es. \<forall>e2\<in>set es. fst e1 < fst e2 \<longrightarrow> fst (snd e1) \<le> fst e2 \<Longrightarrow>
   non_overlapping lo es"
proof (induction es arbitrary: lo)
  case Nil
  then show ?case by simp
next
  case (Cons e es)
  obtain a b r where e: "e = (a, b, r)" by (cases e)
  have later: "b \<le> fst e'" if "e' \<in> set es" for e'
  proof -
    from Cons.prems(1,2) that e have "a < fst e'" by (force simp: le_less)
    with Cons.prems(4) that e show ?thesis by force
  qed
  have "non_overlapping b es"
  proof (rule Cons.IH)
    show "sorted (map fst es)" "distinct (map fst es)" using Cons.prems(1,2) by simp_all
    show "\<forall>e\<in>set es. b \<le> fst e \<and> fst e \<le> fst (snd e)" using later Cons.prems(3) by simp
    show "\<forall>e1\<in>set es. \<forall>e2\<in>set es. fst e1 < fst e2 \<longrightarrow> fst (snd e1) \<le> fst e2"
      using Cons.prems(4) by simp
  qed
  with Cons.prems(3) e show ?case by simp
qed


lemma ja_edit_span:
  "ja_edit tc fc e \<Longrightarrow> fst e < fst (snd e) \<and> fst (snd e) \<le> length tc"
  by (cases e) (auto simp: ja_edit_def)

lemma edit_of_same_item:
  assumes "item1 \<in> set (blocks_dict (extract_blocks_to tc))"
    "item2 \<in> set (blocks_dict (extract_blocks_to tc))"
    "edit_of fd item1 = Some e1" "edit_of fd item2 = Some e2" "fst e1 = fst e2"
  shows "item1 = item2"
proof -
  have in_block: "snd item \<in> set (extract_blocks_to tc) \<and> block_id (snd item) = fst item \<and>
      start (snd item) \<le> fst e \<and> fst e < end_pos (snd item)"
    if "item \<in> set (blocks_dict (extract_blocks_to tc))" "edit_of fd item = Some e" for item e
  proof -
    from that(1) blocks_dict_props(1) [of "fst item" "snd item"]
    have tb: "snd item \<in> set (extract_blocks_to tc)" "block_id (snd item) = fst item" by simp_all
    from that(2) obtain ja jb jc where
      ja: "extract_ja_section (content (snd item)) = Some (ja, jb, jc)" and
      a: "fst e = start (snd item) + ja"
      by (auto simp: edit_of_def split: option.splits if_splits)
    from tb(1) have "snd item \<in> set (extract_loop To tc 0)" by (simp add: extract_blocks_to_def)
    from extract_loop_block_at [OF this]
    have "length (content (snd item)) = end_pos (snd item) - start (snd item)"
      by (simp add: block_at_def slice_length)
    with extract_ja_section_span [OF ja] a tb show ?thesis by auto
  qed
  note 1 = in_block [OF assms(1,3)] and 2 = in_block [OF assms(2,4)]
  have "sorted_wrt (\<lambda>a b. end_pos a \<le> start b) (extract_blocks_to tc)"
    using extract_blocks_sorted(1) [of To tc] by (simp add: extract_blocks_def)
  from sorted_wrt_pair [OF this, of "snd item1" "snd item2"] 1 2 assms(5)
  have "snd item1 = snd item2" by auto
  with 1 2 show "item1 = item2" by (simp add: prod_eq_iff)
qed

lemma edit_of_unique:
  assumes "item1 \<in> set (blocks_dict (extract_blocks_to tc))"
    "item2 \<in> set (blocks_dict (extract_blocks_to tc))"
    "edit_of fd item1 = Some e1" "edit_of fd item2 = Some e2" "fst e1 = fst e2"
  shows "e1 = e2"
  using edit_of_same_item [OF assms] assms(3,4) by simp


lemma replacements_set:
  "set (fst (match_blocks (blocks_dict (extract_blocks_to tc))
               (blocks_dict (extract_blocks_from fc)))) = correlated_edits tc fc"
  "distinct (map fst (fst (match_blocks (blocks_dict (extract_blocks_to tc))
               (blocks_dict (extract_blocks_from fc)))))"
proof -
  let ?td = "blocks_dict (extract_blocks_to tc)"
  let ?fd = "blocks_dict (extract_blocks_from fc)"
  let ?reps = "foldl (\<lambda>r item. enter r (edit_of ?fd item)) [] ?td"
  have inv: "(\<forall>e\<in>set ?reps. e \<in> correlated_edits tc fc) \<and> distinct (map fst ?reps)"
    by (rule enter_fold_invariant) (auto simp: correlated_edits_def)
  have "e \<in> set ?reps" if "e \<in> correlated_edits tc fc" for e
  proof (rule enter_fold_member)
    from that show "e \<in> set [] \<or> (\<exists>item\<in>set ?td. edit_of ?fd item = Some e)"
      by (simp add: correlated_edits_def)
    from that obtain item where item: "item \<in> set ?td" "edit_of ?fd item = Some e"
      by (auto simp: correlated_edits_def)
    show "\<forall>e'. (e' \<in> set [] \<or> (\<exists>item\<in>set ?td. edit_of ?fd item = Some e')) \<longrightarrow>
             fst e' = fst e \<longrightarrow> e' = e"
      using edit_of_unique [OF _ item(1) _ item(2)] by auto
  qed
  with inv show "set (fst (match_blocks ?td ?fd)) = correlated_edits tc fc"
    by (auto simp: match_blocks_alt)
  from inv show "distinct (map fst (fst (match_blocks ?td ?fd)))"
    by (simp add: match_blocks_alt)
qed

lemma correlated_edits_ja_edit: "e \<in> correlated_edits tc fc \<Longrightarrow> ja_edit tc fc e"
  by (auto simp: correlated_edits_def intro: edit_of_ja_edit)

lemma process_file_success:
  assumes "process_file st name tc fc = (True, w, st')"
  shows "w = Some (apply_edits tc (fst (match_blocks (blocks_dict (extract_blocks_to tc))
               (blocks_dict (extract_blocks_from fc)))))"
  using assms
  by (auto simp: process_file_def Let_def fail_def split: if_splits prod.splits
      simp del: contains.simps)

lemma replacements_reconstruct:
  fixes tc fc
  defines "edits \<equiv> sort_key fst (fst (match_blocks (blocks_dict (extract_blocks_to tc))
               (blocks_dict (extract_blocks_from fc))))"
  shows "apply_edits tc (fst (match_blocks (blocks_dict (extract_blocks_to tc))
               (blocks_dict (extract_blocks_from fc)))) = reconstruct tc 0 edits"
    and "non_overlapping 0 edits" and "sorted (map fst edits)"
    and "set edits = correlated_edits tc fc"
proof -
  let ?reps = "fst (match_blocks (blocks_dict (extract_blocks_to tc))
               (blocks_dict (extract_blocks_from fc)))"
  note rs = replacements_set [of tc fc]
  show set_eq: "set edits = correlated_edits tc fc"
    using rs(1) by (simp add: edits_def)
  show srt: "sorted (map fst edits)"
    by (simp add: edits_def)
  have dist: "distinct (map fst edits)"
    using rs(2) by (simp add: edits_def map_sort_key)
  have ja: "ja_edit tc fc e" if "e \<in> set edits" for e
    using that set_eq correlated_edits_ja_edit by blast
  show no: "non_overlapping 0 edits"
  proof (rule non_overlapping_sorted [OF srt dist])
    show "\<forall>e\<in>set edits. 0 \<le> fst e \<and> fst e \<le> fst (snd e)"
    proof
      fix e
      assume "e \<in> set edits"
      from ja_edit_span [OF ja [OF this]] show "0 \<le> fst e \<and> fst e \<le> fst (snd e)" by simp
    qed
    show "\<forall>e1\<in>set edits. \<forall>e2\<in>set edits. fst e1 < fst e2 \<longrightarrow> fst (snd e1) \<le> fst e2"
      using ja ja_edit_disjoint by blast
  qed
  have "\<forall>(a, b, r)\<in>set ?reps. a \<le> length tc"
  proof (clarify)
    fix a b r
    assume "(a, b, r) \<in> set ?reps"
    then have "(a, b, r) \<in> set edits" by (simp add: edits_def)
    from ja_edit_span [OF ja [OF this]] show "a \<le> length tc" by simp
  qed
  with rs(2) no show "apply_edits tc ?reps = reconstruct tc 0 edits"
    unfolding edits_def by (intro apply_edits_direct)
qed

text \<open>
  C2. Whenever \<open>process_file\<close> succeeds (returns \<open>True\<close> and writes \<open>out\<close>), there is a
  list of edits, in ascending order and not overlapping, such that \<open>out\<close> is the direct
  reconstruction of the target buffer \<open>tc\<close> with them: the characters of \<open>tc\<close> outside
  the spans stand in \<open>out\<close> unchanged and in order, and each span is replaced by its
  replacement. The edits are exactly those of the correlated entries of the target
  dictionary (where two located blocks have the same id, the dictionary holds the later
  one), and each of them is a \<open>ja_edit\<close>: its span is the \<open>ja = {...}\<close> subsection that
  \<open>extract_ja_section\<close> locates in a target block, and its replacement is the result of
  \<open>extract_en_section\<close> (the transformed \<open>en\<close> content, which begins with the tag
  \<open>ja =\<close>) for a source block with the next id.
\<close>

theorem process_file_frame:
  "process_file st name tc fc = (True, Some out, st') \<longrightarrow>
     (\<exists>edits. out = reconstruct tc 0 edits \<and> non_overlapping 0 edits \<and>
        sorted (map fst edits) \<and> set edits = correlated_edits tc fc \<and>
        (\<forall>e\<in>set edits. ja_edit tc fc e))"
proof
  assume ok: "process_file st name tc fc = (True, Some out, st')"
  let ?edits = "sort_key fst (fst (match_blocks (blocks_dict (extract_blocks_to tc))
               (blocks_dict (extract_blocks_from fc))))"
  from process_file_success [OF ok] replacements_reconstruct(1) [of tc fc]
  have "out = reconstruct tc 0 ?edits" by simp
  moreover note replacements_reconstruct(2,3,4) [of tc fc]
  moreover have "\<forall>e\<in>set ?edits. ja_edit tc fc e"
    using replacements_reconstruct(4) [of tc fc] correlated_edits_ja_edit by blast
  ultimately show "\<exists>edits. out = reconstruct tc 0 edits \<and> non_overlapping 0 edits \<and>
        sorted (map fst edits) \<and> set edits = correlated_edits tc fc \<and>
        (\<forall>e\<in>set edits. ja_edit tc fc e)"
    by blast
qed


theorem process_file_frame_witness:
  "process_file \<lparr>mismatched_files = [], failed_files = [], successful_files = []\<rparr> ''a.ast''
     (ustr ''astver=1 ast = {block_0={text={ja={a}}}}'')
     (91 # quoted ''1_1'' @ ustr '']={text={en={b}}}'') =
     (True, Some (ustr ''astver=1 ast = {block_0={text={ja ={b}}}}''),
      \<lparr>mismatched_files = [], failed_files = [], successful_files = [''a.ast'']\<rparr>) \<and>
   reconstruct (ustr ''astver=1 ast = {block_0={text={ja={a}}}}'') 0 [(31, 37, ustr ''ja ={b}'')] =
     ustr ''astver=1 ast = {block_0={text={ja ={b}}}}'' \<and>
   (\<exists>edits. ustr ''astver=1 ast = {block_0={text={ja ={b}}}}'' =
        reconstruct (ustr ''astver=1 ast = {block_0={text={ja={a}}}}'') 0 edits \<and>
      non_overlapping 0 edits \<and> sorted (map fst edits) \<and>
      set edits = correlated_edits (ustr ''astver=1 ast = {block_0={text={ja={a}}}}'')
                    (91 # quoted ''1_1'' @ ustr '']={text={en={b}}}'') \<and>
      (\<forall>e\<in>set edits. ja_edit (ustr ''astver=1 ast = {block_0={text={ja={a}}}}'')
                    (91 # quoted ''1_1'' @ ustr '']={text={en={b}}}'') e))"
proof -
  let ?tc = "ustr ''astver=1 ast = {block_0={text={ja={a}}}}''"
  let ?fc = "91 # quoted ''1_1'' @ ustr '']={text={en={b}}}''"
  let ?out = "ustr ''astver=1 ast = {block_0={text={ja ={b}}}}''"
  let ?st = "\<lparr>mismatched_files = [], failed_files = [], successful_files = []\<rparr>"
  have run: "process_file ?st ''a.ast'' ?tc ?fc =
     (True, Some ?out, \<lparr>mismatched_files = [], failed_files = [], successful_files = [''a.ast'']\<rparr>)"
    by (simp add: process_file_def Let_def fail_def apply_edits_def slice_assign_def
        locate_eval match_eval section_eval)
  have rec: "reconstruct ?tc 0 [(31, 37, ustr ''ja ={b}'')] = ?out"
    by (simp add: slice_def ustr_def)
  from run rec process_file_frame [of ?st "''a.ast''" ?tc ?fc ?out
      "\<lparr>mismatched_files = [], failed_files = [], successful_files = [''a.ast'']\<rparr>"]
  show ?thesis by blast
qed


section \<open>The correlation example\<close>

lemma filter_key_single:
  "distinct (map fst td) \<Longrightarrow> k \<in> fst ` set td \<Longrightarrow>
   map fst (filter (\<lambda>item. fst item = k) td) = [k]"
proof (induction td)
  case Nil
  then show ?case by simp
next
  case (Cons item td)
  show ?case
  proof (cases "fst item = k")
    case True
    with Cons.prems(1) have "filter (\<lambda>item. fst item = k) td = []"
      by (force simp: filter_empty_conv image_iff)
    with True show ?thesis by simp
  next
    case False
    with Cons show ?thesis by auto
  qed
qed

lemma filter_eq_single: "distinct ks \<Longrightarrow> k \<in> set ks \<Longrightarrow> filter (\<lambda>x. x = k) ks = [k]"
  using filter_key_single [of "map (\<lambda>x. (x, ())) ks" k]
  by (simp add: comp_def filter_map image_iff)

lemma dict_item:
  "distinct (map fst al) \<Longrightarrow> map_of al k = Some v \<Longrightarrow> item \<in> set al \<Longrightarrow> fst item = k \<Longrightarrow>
   item = (k, v)"
proof -
  assume d: "distinct (map fst al)" and v: "map_of al k = Some v"
    and i: "item \<in> set al" and k: "fst item = k"
  from i k have "(k, snd item) \<in> set al" by (metis prod.collapse)
  from map_of_is_SomeI [OF d this] v have "snd item = v" by simp
  with k show ?thesis by (metis prod.collapse)
qed

text \<open>
  C5. Let the ids of the blocks located in the target buffer be exactly 0, 1, 2 and those
  of the blocks located in the source buffer exactly 1, 2, 4, every target block having a
  \<open>ja\<close> subsection and every source block an \<open>en\<close> subsection. Then the loop records
  exactly the id 2 in \<open>unmatched_to\<close>, exactly the id 4 is in \<open>unmatched_from\<close>, and
  \<open>replacements\<close> holds exactly two edits: the \<open>ja\<close> span of target block 0 with the
  content harvested from source block 1, and the \<open>ja\<close> span of target block 1 with the
  content harvested from source block 2.
\<close>

theorem correlation_offset_example:
  "block_id ` set (extract_blocks_to tc) = {0, 1, 2} \<and>
   block_id ` set (extract_blocks_from fc) = {1, 2, 4} \<and>
   (\<forall>b\<in>set (extract_blocks_to tc). extract_ja_section (content b) \<noteq> None) \<and>
   (\<forall>b\<in>set (extract_blocks_from fc). \<exists>en. extract_en_section (content b) = Some en \<and> en \<noteq> [])
   \<longrightarrow>
   snd (match_blocks (blocks_dict (extract_blocks_to tc))
          (blocks_dict (extract_blocks_from fc))) = [2] \<and>
   unmatched_from_ids (blocks_dict (extract_blocks_to tc))
     (blocks_dict (extract_blocks_from fc)) = [4] \<and>
   (\<exists>tb0 tb1 fb1 fb2 a0 b0 c0 a1 b1 c1 r1 r2.
      map_of (blocks_dict (extract_blocks_to tc)) 0 = Some tb0 \<and>
      map_of (blocks_dict (extract_blocks_to tc)) 1 = Some tb1 \<and>
      map_of (blocks_dict (extract_blocks_from fc)) 1 = Some fb1 \<and>
      map_of (blocks_dict (extract_blocks_from fc)) 2 = Some fb2 \<and>
      extract_ja_section (content tb0) = Some (a0, b0, c0) \<and>
      extract_en_section (content fb1) = Some r1 \<and>
      extract_ja_section (content tb1) = Some (a1, b1, c1) \<and>
      extract_en_section (content fb2) = Some r2 \<and>
      set (fst (match_blocks (blocks_dict (extract_blocks_to tc))
                  (blocks_dict (extract_blocks_from fc)))) =
        {(start tb0 + a0, start tb0 + b0, r1), (start tb1 + a1, start tb1 + b1, r2)} \<and>
      length (fst (match_blocks (blocks_dict (extract_blocks_to tc))
                     (blocks_dict (extract_blocks_from fc)))) = 2)"
proof
  let ?td = "blocks_dict (extract_blocks_to tc)"
  let ?fd = "blocks_dict (extract_blocks_from fc)"
  assume hyp: "block_id ` set (extract_blocks_to tc) = {0, 1, 2} \<and>
   block_id ` set (extract_blocks_from fc) = {1, 2, 4} \<and>
   (\<forall>b\<in>set (extract_blocks_to tc). extract_ja_section (content b) \<noteq> None) \<and>
   (\<forall>b\<in>set (extract_blocks_from fc). \<exists>en. extract_en_section (content b) = Some en \<and> en \<noteq> [])"
  then have tk: "fst ` set ?td = {0, 1, 2}" and fk: "fst ` set ?fd = {1, 2, 4}"
    by (simp_all add: blocks_dict_props(3))
  have td_dist: "distinct (map fst ?td)" and fd_dist: "distinct (map fst ?fd)"
    by (rule blocks_dict_props(2))+
  have key: "map_of al k \<noteq> None" if "k \<in> fst ` set al" for al :: "(int \<times> block) list" and k
    using that by (simp add: map_of_eq_None_iff)
  from key [of 0 ?td] key [of 1 ?td] tk obtain tb0 tb1 where
    tb: "map_of ?td 0 = Some tb0" "map_of ?td 1 = Some tb1" by auto
  from key [of 1 ?fd] key [of 2 ?fd] fk obtain fb1 fb2 where
    fb: "map_of ?fd 1 = Some fb1" "map_of ?fd 2 = Some fb2" by auto
  from fk have f3: "map_of ?fd 3 = None" by (simp add: map_of_eq_None_iff)
  from tk have t3: "map_of ?td 3 = None" by (simp add: map_of_eq_None_iff)
  from hyp have has_ja: "b \<in> set (extract_blocks_to tc) \<Longrightarrow> extract_ja_section (content b) \<noteq> None"
    and has_en: "b \<in> set (extract_blocks_from fc) \<Longrightarrow>
                   \<exists>en. extract_en_section (content b) = Some en \<and> en \<noteq> []" for b
    by blast+
  from has_ja [of tb0] blocks_dict_lookup [OF tb(1)] obtain a0 b0 c0
    where ja0: "extract_ja_section (content tb0) = Some (a0, b0, c0)"
    by (cases "extract_ja_section (content tb0)") auto
  from has_ja [of tb1] blocks_dict_lookup [OF tb(2)] obtain a1 b1 c1
    where ja1: "extract_ja_section (content tb1) = Some (a1, b1, c1)"
    by (cases "extract_ja_section (content tb1)") auto
  note ja = ja0 ja1
  from has_en [of fb1] blocks_dict_lookup [OF fb(1)] obtain r1
    where en1: "extract_en_section (content fb1) = Some r1" "r1 \<noteq> []" by blast
  from has_en [of fb2] blocks_dict_lookup [OF fb(2)] obtain r2
    where en2: "extract_en_section (content fb2) = Some r2" "r2 \<noteq> []" by blast
  note en = en1 en2
  let ?e0 = "(start tb0 + a0, start tb0 + b0, r1)"
  let ?e1 = "(start tb1 + a1, start tb1 + b1, r2)"
  have e0: "edit_of ?fd (0, tb0) = Some ?e0" and e1: "edit_of ?fd (1, tb1) = Some ?e1"
    using fb en ja by (simp_all add: edit_of_def)
  have in0: "(0, tb0) \<in> set ?td" and in1: "(1, tb1) \<in> set ?td"
    using tb by (auto dest: map_of_SomeD)
  have items: "item = (0, tb0) \<or> item = (1, tb1) \<or> fst item = 2" if "item \<in> set ?td" for item
  proof -
    from that tk have "fst item \<in> {0, 1, 2}" by (metis imageI)
    with dict_item [OF td_dist tb(1) that] dict_item [OF td_dist tb(2) that] show ?thesis
      by auto
  qed
  have um: "is_unmatched ?fd item \<longleftrightarrow> fst item = 2" if "item \<in> set ?td" for item
    using items [OF that] fb en ja f3 by (auto simp: is_unmatched_def)
  have "filter (is_unmatched ?fd) ?td = filter (\<lambda>item. fst item = 2) ?td"
    by (rule filter_cong [OF refl]) (rule um)
  with filter_key_single [OF td_dist, of 2] tk
  have c1: "snd (match_blocks ?td ?fd) = [2]"
    by (simp add: match_blocks_alt)
  have "filter (\<lambda>k. map_of ?td (k - 1) = None) (map fst ?fd) = filter (\<lambda>k. k = 4) (map fst ?fd)"
  proof (rule filter_cong [OF refl])
    fix k
    assume "k \<in> set (map fst ?fd)"
    with fk have "k \<in> {1, 2, 4}" by simp
    with tb t3 show "(map_of ?td (k - 1) = None) = (k = 4)" by auto
  qed
  with filter_eq_single [OF fd_dist, of 4] fk
  have c2: "unmatched_from_ids ?td ?fd = [4]"
    by (simp add: unmatched_from_ids_def)
  have no2: "edit_of ?fd item = None" if "fst item = 2" for item
    using that f3 by (simp add: edit_of_def)
  have "correlated_edits tc fc = {?e0, ?e1}"
  proof (rule set_eqI)
    fix e
    show "e \<in> correlated_edits tc fc \<longleftrightarrow> e \<in> {?e0, ?e1}"
    proof
      assume "e \<in> correlated_edits tc fc"
      then obtain item where "item \<in> set ?td" "edit_of ?fd item = Some e"
        by (auto simp: correlated_edits_def)
      with items [of item] e0 e1 no2 [of item] show "e \<in> {?e0, ?e1}" by auto
    next
      assume "e \<in> {?e0, ?e1}"
      with e0 e1 in0 in1 show "e \<in> correlated_edits tc fc"
        by (auto simp: correlated_edits_def)
    qed
  qed
  with replacements_set(1) [of tc fc]
  have c3: "set (fst (match_blocks ?td ?fd)) = {?e0, ?e1}" by simp
  have ne: "?e0 \<noteq> ?e1"
  proof
    assume "?e0 = ?e1"
    then have "fst ?e0 = fst ?e1" by simp
    from edit_of_same_item [OF in0 in1 e0 e1 this] show False by simp
  qed
  from replacements_set(2) [of tc fc] have "distinct (fst (match_blocks ?td ?fd))"
    by (simp add: distinct_map)
  from distinct_card [OF this] c3 ne have c4: "length (fst (match_blocks ?td ?fd)) = 2"
    by simp
  from c1 c2 c3 c4 tb fb ja en(1,3)
  show "snd (match_blocks ?td ?fd) = [2] \<and> unmatched_from_ids ?td ?fd = [4] \<and>
   (\<exists>tb0 tb1 fb1 fb2 a0 b0 c0 a1 b1 c1 r1 r2.
      map_of ?td 0 = Some tb0 \<and> map_of ?td 1 = Some tb1 \<and>
      map_of ?fd 1 = Some fb1 \<and> map_of ?fd 2 = Some fb2 \<and>
      extract_ja_section (content tb0) = Some (a0, b0, c0) \<and>
      extract_en_section (content fb1) = Some r1 \<and>
      extract_ja_section (content tb1) = Some (a1, b1, c1) \<and>
      extract_en_section (content fb2) = Some r2 \<and>
      set (fst (match_blocks ?td ?fd)) =
        {(start tb0 + a0, start tb0 + b0, r1), (start tb1 + a1, start tb1 + b1, r2)} \<and>
      length (fst (match_blocks ?td ?fd)) = 2)"
    by blast
qed


theorem correlation_offset_example_witness:
  "block_id ` set (extract_blocks_to (ustr ''block_0={text={ja={}}}block_1={text={ja={}}}block_2={text={ja={}}}'')) = {0, 1, 2} \<and>
   block_id ` set (extract_blocks_from (91 # quoted ''1_1'' @ ustr '']={text={en={}}}['' @ quoted ''1_2'' @ ustr '']={text={en={}}}['' @ quoted ''1_4'' @ ustr '']={text={en={}}}'')) = {1, 2, 4} \<and>
   map (\<lambda>b. extract_ja_section (content b)) (extract_blocks_to (ustr ''block_0={text={ja={}}}block_1={text={ja={}}}block_2={text={ja={}}}'')) =
     [Some (15, 20, ustr ''ja={}''), Some (15, 20, ustr ''ja={}''), Some (15, 20, ustr ''ja={}'')] \<and>
   map (\<lambda>b. extract_en_section (content b)) (extract_blocks_from (91 # quoted ''1_1'' @ ustr '']={text={en={}}}['' @ quoted ''1_2'' @ ustr '']={text={en={}}}['' @ quoted ''1_4'' @ ustr '']={text={en={}}}'')) =
     [Some (ustr ''ja ={}''), Some (ustr ''ja ={}''), Some (ustr ''ja ={}'')] \<and>
   snd (match_blocks (blocks_dict (extract_blocks_to (ustr ''block_0={text={ja={}}}block_1={text={ja={}}}block_2={text={ja={}}}'')))
          (blocks_dict (extract_blocks_from (91 # quoted ''1_1'' @ ustr '']={text={en={}}}['' @ quoted ''1_2'' @ ustr '']={text={en={}}}['' @ quoted ''1_4'' @ ustr '']={text={en={}}}'')))) = [2] \<and>
   unmatched_from_ids (blocks_dict (extract_blocks_to (ustr ''block_0={text={ja={}}}block_1={text={ja={}}}block_2={text={ja={}}}'')))
     (blocks_dict (extract_blocks_from (91 # quoted ''1_1'' @ ustr '']={text={en={}}}['' @ quoted ''1_2'' @ ustr '']={text={en={}}}['' @ quoted ''1_4'' @ ustr '']={text={en={}}}''))) = [4] \<and>
   length (fst (match_blocks (blocks_dict (extract_blocks_to (ustr ''block_0={text={ja={}}}block_1={text={ja={}}}block_2={text={ja={}}}'')))
                  (blocks_dict (extract_blocks_from (91 # quoted ''1_1'' @ ustr '']={text={en={}}}['' @ quoted ''1_2'' @ ustr '']={text={en={}}}['' @ quoted ''1_4'' @ ustr '']={text={en={}}}''))))) = 2"
proof -
  let ?tc = "(ustr ''block_0={text={ja={}}}block_1={text={ja={}}}block_2={text={ja={}}}'')"
  let ?fc = "(91 # quoted ''1_1'' @ ustr '']={text={en={}}}['' @ quoted ''1_2'' @ ustr '']={text={en={}}}['' @ quoted ''1_4'' @ ustr '']={text={en={}}}'')"
  have tb: "map (\<lambda>b. (block_id b, content b)) (extract_blocks_to ?tc) =
     [(0, ustr ''block_0={text={ja={}}}''), (1, ustr ''block_1={text={ja={}}}''),
      (2, ustr ''block_2={text={ja={}}}'')]"
    by (simp add: locate_eval)
  have fb: "map (\<lambda>b. (block_id b, content b)) (extract_blocks_from ?fc) =
     [(1, 91 # quoted ''1_1'' @ ustr '']={text={en={}}}''),
      (2, 91 # quoted ''1_2'' @ ustr '']={text={en={}}}''),
      (4, 91 # quoted ''1_4'' @ ustr '']={text={en={}}}'')]"
    by (simp add: locate_eval)
  have ja: "extract_ja_section (ustr (''block_'' @ d @ ''={text={ja={}}}'')) =
      Some (15, 20, ustr ''ja={}'')" if "d \<in> {''0'', ''1'', ''2''}" for d
    using that by (auto simp: section_eval locate_eval)
  have en: "extract_en_section (91 # quoted (''1_'' @ d) @ ustr '']={text={en={}}}'') =
      Some (ustr ''ja ={}'')" if "d \<in> {''1'', ''2'', ''4''}" for d
    using that by (auto simp: section_eval locate_eval)
  have ids: "block_id ` set (extract_blocks_to ?tc) = {0, 1, 2}"
    "block_id ` set (extract_blocks_from ?fc) = {1, 2, 4}"
    using arg_cong [OF tb, of "\<lambda>xs. set (map fst xs)"] arg_cong [OF fb, of "\<lambda>xs. set (map fst xs)"]
    by (simp_all add: comp_def image_image)
  have jas: "map (\<lambda>b. extract_ja_section (content b)) (extract_blocks_to ?tc) =
     [Some (15, 20, ustr ''ja={}''), Some (15, 20, ustr ''ja={}''), Some (15, 20, ustr ''ja={}'')]"
    using arg_cong [OF tb, of "map (\<lambda>p. extract_ja_section (snd p))"]
      ja [of "''0''"] ja [of "''1''"] ja [of "''2''"]
    by (simp add: comp_def)
  have ens: "map (\<lambda>b. extract_en_section (content b)) (extract_blocks_from ?fc) =
     [Some (ustr ''ja ={}''), Some (ustr ''ja ={}''), Some (ustr ''ja ={}'')]"
    using arg_cong [OF fb, of "map (\<lambda>p. extract_en_section (snd p))"]
      en [of "''1''"] en [of "''2''"] en [of "''4''"]
    by (simp add: comp_def)
  have h3: "\<forall>b\<in>set (extract_blocks_to ?tc). extract_ja_section (content b) \<noteq> None"
  proof
    fix b
    assume "b \<in> set (extract_blocks_to ?tc)"
    then have "extract_ja_section (content b) \<in>
        set (map (\<lambda>b. extract_ja_section (content b)) (extract_blocks_to ?tc))" by simp
    then show "extract_ja_section (content b) \<noteq> None" unfolding jas by auto
  qed
  have h4: "\<forall>b\<in>set (extract_blocks_from ?fc).
      \<exists>en. extract_en_section (content b) = Some en \<and> en \<noteq> []"
  proof
    fix b
    assume "b \<in> set (extract_blocks_from ?fc)"
    then have "extract_en_section (content b) \<in>
        set (map (\<lambda>b. extract_en_section (content b)) (extract_blocks_from ?fc))" by simp
    then show "\<exists>en. extract_en_section (content b) = Some en \<and> en \<noteq> []"
      unfolding ens by (auto simp: ustr_def)
  qed
  from ids jas ens h3 h4 correlation_offset_example [of ?tc ?fc]
  show ?thesis by blast
qed

end
